theory Spec2Isabelle
  imports Main "HOL-Library.Word" "HOL-Library.Multiset"
begin

section \<open>Activity logging face: data model\<close>

text \<open>
  The model follows \<^verbatim>\<open>watch-faces/sensor/activity_logging_face.c\<close>. C's fixed-width
  integers are words: \<open>uint16_t\<close> is \<open>16 word\<close>, \<open>uint32_t\<close> is \<open>32 word\<close>, \<open>uint8_t\<close> is
  \<open>8 word\<close>; \<open>int\<close> arithmetic that cannot overflow on the inputs at hand is done on
  \<open>int\<close> and \<open>nat\<close>.
\<close>

type_synonym u8 = "8 word"
type_synonym u16 = "16 word"
type_synonym u32 = "32 word"

datatype activity_mode = MODE_DAY | MODE_HISTOGRAM

datatype histogram_view_t =
  HISTOGRAM_VIEW_CHART | HISTOGRAM_VIEW_MEDIAN | HISTOGRAM_VIEW_MIN | HISTOGRAM_VIEW_MAX

datatype timeframe_t = ACTIVITY_LOGGING_TIMEFRAME_12H | ACTIVITY_LOGGING_TIMEFRAME_12D

text \<open>
  Modelled from the spec: the declaration of \<^verbatim>\<open>activity_logging_state_t\<close> lives in
  \<^verbatim>\<open>activity_logging_face.h\<close>, which is not among the sources. The fields are the ones the
  C file reads and writes; their widths are the ones section 3 of the specification gives
  (\<open>active_minutes_today: u16\<close>, \<open>hourly_data: [u16; 24]\<close>, \<open>daily_log: [u16; N]\<close>,
  \<open>data_points: u32\<close>, \<open>display_index: u8\<close>). The width of \<open>emoticon_tick_count\<close> is not
  given; it never exceeds 2 and is taken as a byte. The capacity
  \<^verbatim>\<open>ACTIVITY_LOGGING_NUM_DAYS\<close> is a macro of the same header: every function that uses it
  takes it as its first argument \<open>N\<close>.
\<close>

record activity_logging_state =
  activity_log :: "u16 list"
  data_points :: u32
  display_index :: u8
  active_minutes_today :: u16
  previous_minute_was_active :: bool
  hourly_data :: "u16 list"
  mode :: activity_mode
  histogram_view :: histogram_view_t
  timeframe_mode :: timeframe_t
  show_emoticon :: bool
  emoticon_tick_count :: u8

text \<open>The fields of \<^verbatim>\<open>watch_date_time_t\<close> that the face reads.\<close>

record watch_date_time =
  second :: nat
  minute :: nat
  hour :: nat
  day :: nat

text \<open>
  The event types the face distinguishes; \<open>EVENT_OTHER\<close> stands for every other event of
  Movement, all of which reach the \<^verbatim>\<open>default\<close> branches.
\<close>

datatype movement_event_type =
    EVENT_ACTIVATE
  | EVENT_TICK
  | EVENT_LOW_ENERGY_UPDATE
  | EVENT_BACKGROUND_TASK
  | EVENT_TIMEOUT
  | EVENT_LIGHT_BUTTON_DOWN
  | EVENT_LIGHT_BUTTON_UP
  | EVENT_LIGHT_LONG_PRESS
  | EVENT_ALARM_BUTTON_DOWN
  | EVENT_OTHER

section \<open>Statistics over a window\<close>

text \<open>
  \<^verbatim>\<open>_calculate_median\<close>. The copy loop fills the local array \<open>sorted_data[12]\<close> with the
  first \<open>count\<close> elements of \<open>data\<close>; the two nested loops are the bubble sort on that
  local array (the parameter \<open>count\<close> is written \<open>cnt\<close>, \<open>count\<close> being a constant of
  the multiset library). The function is undefined in C when \<open>count\<close> is 0 (it reads
  \<open>sorted_data[-1]\<close>), exceeds 12 (it overruns the local array) or exceeds the length of
  \<open>data\<close>: the model answers \<open>None\<close> there. The result pairs the caller's buffer, which
  no statement of the function writes, with the returned value. The sum of the two
  central values is computed in \<open>int\<close>, where it cannot overflow.
\<close>

definition bubble_swap :: "nat \<Rightarrow> u16 list \<Rightarrow> u16 list" where
  "bubble_swap j sorted_data =
     (if sorted_data ! j > sorted_data ! (j + 1)
      then sorted_data[j := sorted_data ! (j + 1), j + 1 := sorted_data ! j]
      else sorted_data)"

definition bubble_pass :: "nat \<Rightarrow> nat \<Rightarrow> u16 list \<Rightarrow> u16 list" where
  "bubble_pass cnt i sorted_data = fold bubble_swap [0..<cnt - i - 1] sorted_data"

definition bubble_sort :: "nat \<Rightarrow> u16 list \<Rightarrow> u16 list" where
  "bubble_sort cnt sorted_data = fold (bubble_pass cnt) [0..<cnt - 1] sorted_data"

definition calculate_median :: "u16 list \<Rightarrow> nat \<Rightarrow> (u16 list \<times> u16) option" where
  "calculate_median data cnt =
     (if cnt = 0 \<or> 12 < cnt \<or> length data < cnt then None
      else
        let sorted_data = bubble_sort cnt (map (\<lambda>i. data ! i) [0..<cnt])
        in Some (data,
             if cnt mod 2 = 0
             then of_nat ((unat (sorted_data ! (cnt div 2 - 1))
                           + unat (sorted_data ! (cnt div 2))) div 2)
             else sorted_data ! (cnt div 2)))"

text \<open>
  \<^verbatim>\<open>_find_min_with_index\<close> and \<^verbatim>\<open>_find_max_with_index\<close>: the pair is
  \<open>(min_value, *min_index)\<close>. Reading \<open>data[0]\<close> of an empty buffer, or past its end, is
  undefined in C: \<open>None\<close>.
\<close>

definition min_step :: "u16 list \<Rightarrow> nat \<Rightarrow> u16 \<times> nat \<Rightarrow> u16 \<times> nat" where
  "min_step data i acc = (if data ! i \<le> fst acc then (data ! i, i) else acc)"

definition find_min_with_index :: "u16 list \<Rightarrow> nat \<Rightarrow> (u16 \<times> nat) option" where
  "find_min_with_index data cnt =
     (if data = [] \<or> length data < cnt then None
      else Some (fold (min_step data) [1..<cnt] (data ! 0, 0)))"

definition max_step :: "u16 list \<Rightarrow> nat \<Rightarrow> u16 \<times> nat \<Rightarrow> u16 \<times> nat" where
  "max_step data i acc = (if data ! i \<ge> fst acc then (data ! i, i) else acc)"

definition find_max_with_index :: "u16 list \<Rightarrow> nat \<Rightarrow> (u16 \<times> nat) option" where
  "find_max_with_index data cnt =
     (if data = [] \<or> length data < cnt then None
      else Some (fold (max_step data) [1..<cnt] (data ! 0, 0)))"

section \<open>Rendering\<close>

text \<open>
  The display is outside the state: what a page handler writes to the LCD is returned as
  a value of type \<open>page\<close> (the title in the top left corner follows from the
  constructor; a statistic is \<open>None\<close> where the C function that computes it is
  undefined, which the 12-element window never is). \<^verbatim>\<open>_get_day_of_month_for_days_back\<close> is calendar arithmetic of
  \<^verbatim>\<open>watch_utility\<close>; the pages that call it record its argument, the number of days
  back.
\<close>

datatype top_right = TOP_HOUR int | TOP_DAYS_BACK u8

datatype page =
    PAGE_TODAY_MOOD nat char
  | PAGE_TODAY_COUNT nat u16
  | PAGE_LOG_NO_DATA u8
  | PAGE_LOG_COUNT u8 u16
  | PAGE_CHART timeframe_t "nat list"
  | PAGE_MEDIAN "u16 option"
  | PAGE_MIN "(top_right \<times> u16) option"
  | PAGE_MAX "(top_right \<times> u16) option"

definition activity_logging_get_mood_face :: "u16 \<Rightarrow> char" where
  "activity_logging_get_mood_face active_minutes =
     (if active_minutes \<ge> 150 then CHR '')''
      else if active_minutes \<ge> 30 then CHR ''1''
      else CHR ''('')"

definition get_bar_height :: "u16 \<Rightarrow> bool \<Rightarrow> nat" where
  "get_bar_height minutes is_hourly_data =
     (if is_hourly_data
      then (if minutes \<ge> 10 then 2 else if minutes \<ge> 5 then 1 else 0)
      else (if minutes \<ge> 150 then 2 else if minutes \<ge> 30 then 1 else 0))"

text \<open>
  \<open>(current_hour - 11 + i + 24) % 24\<close>, in \<open>int\<close>: the dividend is never negative for an
  hour of the clock.
\<close>

definition hour_index :: "watch_date_time \<Rightarrow> nat \<Rightarrow> nat" where
  "hour_index now i = nat ((int (hour now) - 11 + int i + 24) mod 24)"

text \<open>
  \<open>int day_index = (state->data_points - 12 + bar) % ACTIVITY_LOGGING_NUM_DAYS\<close>:
  \<open>data_points\<close> is unsigned, so is the whole expression: the subtraction wraps at
  \<open>2^32\<close> and the remainder is the unsigned one, between 0 and \<open>N - 1\<close>.
\<close>

definition day_index :: "nat \<Rightarrow> u32 \<Rightarrow> nat \<Rightarrow> int" where
  "day_index N dp i = int (unat (dp - 12 + of_nat i) mod N)"

text \<open>
  The test \<open>day_index < 0 || day_index >= state->data_points\<close>: the second comparison is
  between an \<open>int\<close> and a \<open>uint32_t\<close>, hence unsigned.
\<close>

definition day_slot_missing :: "u32 \<Rightarrow> int \<Rightarrow> bool" where
  "day_slot_missing dp di = (di < 0 \<or> (word_of_int di :: u32) \<ge> dp)"

definition draw_histogram :: "nat \<Rightarrow> watch_date_time \<Rightarrow> activity_logging_state \<Rightarrow> nat list" where
  "draw_histogram N now state =
     (case timeframe_mode state of
        ACTIVITY_LOGGING_TIMEFRAME_12H \<Rightarrow>
          map (\<lambda>bar. get_bar_height (hourly_data state ! hour_index now bar) True) [0..<12]
      | ACTIVITY_LOGGING_TIMEFRAME_12D \<Rightarrow>
          map (\<lambda>bar.
                 let di = day_index N (data_points state) bar
                 in if day_slot_missing (data_points state) di then 0
                    else get_bar_height (activity_log state ! nat di) False)
            [0..<12])"

text \<open>
  C's \<open>%\<close> on \<open>int\<close> truncates towards zero: the remainder has the sign of the dividend.
\<close>

definition c_rem :: "int \<Rightarrow> int \<Rightarrow> int" where
  "c_rem a b = sgn a * (\<bar>a\<bar> mod \<bar>b\<bar>)"

text \<open>
  \<^verbatim>\<open>_activity_logging_handle_today_page\<close>. In the log branch
  \<open>pos = ((int16_t)state->data_points - (int32_t)state->display_index) % N\<close>: the cast
  keeps the low 16 bits of \<open>data_points\<close> and reads them as two's complement.
\<close>

definition log_pos :: "nat \<Rightarrow> activity_logging_state \<Rightarrow> int" where
  "log_pos N state =
     c_rem (sint (ucast (data_points state) :: u16) - uint (display_index state)) (int N)"

definition handle_today_page :: "nat \<Rightarrow> watch_date_time \<Rightarrow> activity_logging_state \<Rightarrow> page" where
  "handle_today_page N now state =
     (if display_index state = 0
      then (if show_emoticon state
            then PAGE_TODAY_MOOD (day now)
                   (activity_logging_get_mood_face (active_minutes_today state))
            else PAGE_TODAY_COUNT (day now) (active_minutes_today state))
      else
        let pos = log_pos N state
        in if pos < 0 then PAGE_LOG_NO_DATA (display_index state)
           else PAGE_LOG_COUNT (display_index state) (activity_log state ! nat pos))"

text \<open>
  The window \<open>data[12]\<close> that \<^verbatim>\<open>_activity_logging_handle_histogram_page\<close> prepares.
\<close>

definition histogram_data :: "nat \<Rightarrow> watch_date_time \<Rightarrow> activity_logging_state \<Rightarrow> u16 list" where
  "histogram_data N now state =
     (case timeframe_mode state of
        ACTIVITY_LOGGING_TIMEFRAME_12H \<Rightarrow>
          map (\<lambda>i. hourly_data state ! hour_index now i) [0..<12]
      | ACTIVITY_LOGGING_TIMEFRAME_12D \<Rightarrow>
          map (\<lambda>i.
                 let di = day_index N (data_points state) i
                 in if day_slot_missing (data_points state) di then 0
                    else activity_log state ! nat di)
            [0..<12])"

definition index_label :: "watch_date_time \<Rightarrow> activity_logging_state \<Rightarrow> nat \<Rightarrow> top_right" where
  "index_label now state idx =
     (case timeframe_mode state of
        ACTIVITY_LOGGING_TIMEFRAME_12H \<Rightarrow> TOP_HOUR ((int (hour now) - 11 + int idx + 24) mod 24)
      | ACTIVITY_LOGGING_TIMEFRAME_12D \<Rightarrow> TOP_DAYS_BACK (12 - of_nat idx))"

definition handle_histogram_page :: "nat \<Rightarrow> watch_date_time \<Rightarrow> activity_logging_state \<Rightarrow> page" where
  "handle_histogram_page N now state =
     (let data = histogram_data N now state; cnt = 12
      in case histogram_view state of
           HISTOGRAM_VIEW_CHART \<Rightarrow> PAGE_CHART (timeframe_mode state) (draw_histogram N now state)
         | HISTOGRAM_VIEW_MEDIAN \<Rightarrow> PAGE_MEDIAN (map_option snd (calculate_median data cnt))
         | HISTOGRAM_VIEW_MIN \<Rightarrow>
             PAGE_MIN (map_option (\<lambda>(min_value, min_index).
                          (index_label now state min_index, min_value))
                        (find_min_with_index data cnt))
         | HISTOGRAM_VIEW_MAX \<Rightarrow>
             PAGE_MAX (map_option (\<lambda>(max_value, max_index).
                          (index_label now state max_index, max_value))
                        (find_max_with_index data cnt)))"

section \<open>Event handlers\<close>

text \<open>
  Each handler returns the new state and the page it rendered last, if any. The sleep
  animation and the indicators belong to the watch hardware and are left out.
  \<open>(state->histogram_view + 1) % 4\<close> is \<open>next_histogram_view\<close>, the enumerators being 0
  to 3 in the order chart, median, min, max. \<open>(state->display_index + 1) % N\<close> is
  computed in \<open>int\<close> and stored back into a byte.
\<close>

fun next_histogram_view :: "histogram_view_t \<Rightarrow> histogram_view_t" where
  "next_histogram_view HISTOGRAM_VIEW_CHART = HISTOGRAM_VIEW_MEDIAN"
| "next_histogram_view HISTOGRAM_VIEW_MEDIAN = HISTOGRAM_VIEW_MIN"
| "next_histogram_view HISTOGRAM_VIEW_MIN = HISTOGRAM_VIEW_MAX"
| "next_histogram_view HISTOGRAM_VIEW_MAX = HISTOGRAM_VIEW_CHART"

fun handle_day_events ::
  "nat \<Rightarrow> watch_date_time \<Rightarrow> movement_event_type \<Rightarrow> activity_logging_state
   \<Rightarrow> activity_logging_state \<times> page option" where
  "handle_day_events N now EVENT_LIGHT_BUTTON_DOWN state = (state, None)"
| "handle_day_events N now EVENT_LIGHT_BUTTON_UP state =
     (if display_index state > 0
      then let state1 = state\<lparr>display_index := display_index state - 1\<rparr>
           in (state1, Some (handle_today_page N now state1))
      else (state, None))"
| "handle_day_events N now EVENT_LIGHT_LONG_PRESS state =
     (let state1 = state\<lparr>mode := MODE_HISTOGRAM, display_index := 0\<rparr>
      in (state1, Some (handle_histogram_page N now state1)))"
| "handle_day_events N now EVENT_ALARM_BUTTON_DOWN state =
     (let state1 = state\<lparr>display_index := of_nat ((unat (display_index state) + 1) mod N)\<rparr>
      in (state1, Some (handle_today_page N now state1)))"
| "handle_day_events N now EVENT_ACTIVATE state = (state, Some (handle_today_page N now state))"
| "handle_day_events N now EVENT_TICK state =
     (let page1 = (if second now = 0 \<and> display_index state = 0
                   then Some (handle_today_page N now state) else None)
      in if show_emoticon state
         then let state1 = state\<lparr>emoticon_tick_count := emoticon_tick_count state + 1\<rparr>
              in if emoticon_tick_count state1 > 1
                 then let state2 = state1\<lparr>show_emoticon := False\<rparr>
                      in (state2, Some (handle_today_page N now state2))
                 else (state1, page1)
         else (state, page1))"
| "handle_day_events N now EVENT_LOW_ENERGY_UPDATE state =
     (state, Some (handle_today_page N now state))"
| "handle_day_events N now EVENT_TIMEOUT state =
     (let state1 = state\<lparr>display_index := 0\<rparr>
      in (state1, Some (handle_today_page N now state1)))"
| "handle_day_events N now _ state = (state, None)"

fun handle_histogram_events ::
  "nat \<Rightarrow> watch_date_time \<Rightarrow> movement_event_type \<Rightarrow> activity_logging_state
   \<Rightarrow> activity_logging_state \<times> page option" where
  "handle_histogram_events N now EVENT_LIGHT_BUTTON_DOWN state = (state, None)"
| "handle_histogram_events N now EVENT_LIGHT_BUTTON_UP state =
     (let state1 = state\<lparr>histogram_view := next_histogram_view (histogram_view state)\<rparr>
      in (state1, Some (handle_histogram_page N now state1)))"
| "handle_histogram_events N now EVENT_LIGHT_LONG_PRESS state =
     (let state1 = state\<lparr>mode := MODE_DAY\<rparr>
      in (state1, Some (handle_today_page N now state1)))"
| "handle_histogram_events N now EVENT_ALARM_BUTTON_DOWN state =
     (let state1 =
            (if timeframe_mode state = ACTIVITY_LOGGING_TIMEFRAME_12H
             then state\<lparr>timeframe_mode := ACTIVITY_LOGGING_TIMEFRAME_12D\<rparr>
             else state\<lparr>timeframe_mode := ACTIVITY_LOGGING_TIMEFRAME_12H\<rparr>)
      in (state1, Some (handle_histogram_page N now state1)))"
| "handle_histogram_events N now EVENT_ACTIVATE state =
     (state, Some (handle_histogram_page N now state))"
| "handle_histogram_events N now EVENT_TICK state =
     (state, if second now = 0 \<and> display_index state = 0
             then Some (handle_histogram_page N now state) else None)"
| "handle_histogram_events N now EVENT_LOW_ENERGY_UPDATE state =
     (state, Some (handle_histogram_page N now state))"
| "handle_histogram_events N now EVENT_TIMEOUT state =
     (let state1 = state\<lparr>display_index := 0\<rparr>
      in (state1, Some (handle_histogram_page N now state1)))"
| "handle_histogram_events N now _ state = (state, None)"

section \<open>The face\<close>

text \<open>
  \<^verbatim>\<open>activity_logging_face_setup\<close> allocates the state and fills it with zero bytes: the two
  arrays hold zeros and every enumeration starts at its enumerator 0 (the first one of
  each datatype above).
\<close>

definition activity_logging_face_setup :: "nat \<Rightarrow> activity_logging_state" where
  "activity_logging_face_setup N =
     \<lparr>activity_log = replicate N 0, data_points = 0, display_index = 0,
      active_minutes_today = 0, previous_minute_was_active = False,
      hourly_data = replicate 24 0, mode = MODE_DAY,
      histogram_view = HISTOGRAM_VIEW_CHART, timeframe_mode = ACTIVITY_LOGGING_TIMEFRAME_12H,
      show_emoticon = False, emoticon_tick_count = 0\<rparr>"

definition activity_logging_face_activate :: "activity_logging_state \<Rightarrow> activity_logging_state" where
  "activity_logging_face_activate state =
     state\<lparr>display_index := 0, show_emoticon := True, emoticon_tick_count := 0\<rparr>"

text \<open>
  The deferred commit, the \<^verbatim>\<open>EVENT_BACKGROUND_TASK\<close> branch of the loop.
\<close>

definition background_task :: "nat \<Rightarrow> activity_logging_state \<Rightarrow> activity_logging_state" where
  "background_task N state =
     (let pos = unat (data_points state) mod N
      in state\<lparr>activity_log := (activity_log state)[pos := active_minutes_today state],
               data_points := data_points state + 1,
               active_minutes_today := 0\<rparr>)"

text \<open>
  \<^verbatim>\<open>activity_logging_face_loop\<close>: the handler of the current mode first, then the second
  switch; \<^verbatim>\<open>movement_default_loop_handler\<close> does not see the state.
\<close>

definition activity_logging_face_loop ::
  "nat \<Rightarrow> watch_date_time \<Rightarrow> movement_event_type \<Rightarrow> activity_logging_state
   \<Rightarrow> activity_logging_state \<times> page option" where
  "activity_logging_face_loop N now event state =
     (let (state1, shown) =
            (case mode state of
               MODE_DAY \<Rightarrow> handle_day_events N now event state
             | MODE_HISTOGRAM \<Rightarrow> handle_histogram_events N now event state)
      in case event of
           EVENT_LIGHT_BUTTON_DOWN \<Rightarrow> (state1, shown)
         | EVENT_BACKGROUND_TASK \<Rightarrow> (background_task N state1, shown)
         | _ \<Rightarrow> (state1, shown))"

text \<open>
  \<^verbatim>\<open>activity_logging_face_advise\<close>, the per-minute sampler. \<open>gpio_a4\<close> is the value of
  \<^verbatim>\<open>HAL_GPIO_A4_read()\<close>: true when the accelerometer reports no motion. The second
  component is \<open>wants_background_task\<close>. The hour of the clock is below 24, the length
  of \<open>hourly_data\<close>.
\<close>

definition activity_logging_face_advise ::
  "watch_date_time \<Rightarrow> bool \<Rightarrow> activity_logging_state \<Rightarrow> activity_logging_state \<times> bool" where
  "activity_logging_face_advise datetime gpio_a4 state =
     (let state1 = (if minute datetime = 0
                    then state\<lparr>hourly_data := (hourly_data state)[hour datetime := 0]\<rparr>
                    else state);
          state2 =
            (if \<not> gpio_a4
             then (if previous_minute_was_active state1
                   then state1\<lparr>active_minutes_today := active_minutes_today state1 + 1,
                               hourly_data := (hourly_data state1)
                                 [hour datetime := hourly_data state1 ! hour datetime + 1]\<rparr>
                   else state1\<lparr>previous_minute_was_active := True\<rparr>)
             else state1\<lparr>previous_minute_was_active := False\<rparr>)
      in (state2, hour datetime = 0 \<and> minute datetime = 0))"

text \<open>Running the sampler over a sequence of minutes, each with its time and reading.\<close>

fun advise_all ::
  "activity_logging_state \<Rightarrow> (watch_date_time \<times> bool) list \<Rightarrow> activity_logging_state" where
  "advise_all state [] = state"
| "advise_all state ((datetime, gpio_a4) # rest) =
     advise_all (fst (activity_logging_face_advise datetime gpio_a4 state)) rest"

text \<open>
  The states the face can be in: the one \<open>setup\<close> creates, and every state an entry
  point of the face makes of such a state.
\<close>

inductive reachable :: "nat \<Rightarrow> activity_logging_state \<Rightarrow> bool" for N :: nat where
  reach_setup: "reachable N (activity_logging_face_setup N)"
| reach_activate: "reachable N state \<Longrightarrow> reachable N (activity_logging_face_activate state)"
| reach_loop:
    "reachable N state \<Longrightarrow> reachable N (fst (activity_logging_face_loop N now event state))"
| reach_advise:
    "reachable N state \<Longrightarrow> reachable N (fst (activity_logging_face_advise datetime gpio_a4 state))"

section \<open>Auxiliary notions for the proofs\<close>

text \<open>
  The invariant of the two index scans after the elements below \<open>n\<close>: the pair holds a
  smallest (largest) of them and the highest index at which it occurs.
\<close>

definition last_min_at :: "u16 list \<Rightarrow> nat \<Rightarrow> u16 \<times> nat \<Rightarrow> bool" where
  "last_min_at data n r =
     (snd r < n \<and> data ! snd r = fst r \<and> (\<forall>j<n. fst r \<le> data ! j)
      \<and> (\<forall>j<n. data ! j = fst r \<longrightarrow> j \<le> snd r))"

definition last_max_at :: "u16 list \<Rightarrow> nat \<Rightarrow> u16 \<times> nat \<Rightarrow> bool" where
  "last_max_at data n r =
     (snd r < n \<and> data ! snd r = fst r \<and> (\<forall>j<n. data ! j \<le> fst r)
      \<and> (\<forall>j<n. data ! j = fst r \<longrightarrow> j \<le> snd r))"

text \<open>
  A minute is credited by a run of the sampler when \<open>active_minutes_today\<close> and the slot
  of the current hour (after its reset at minute 0) each grow by 1.
  \<open>credited_minutes\<close> counts the credited minutes of a sequence of sampler runs.
\<close>

definition credited :: "watch_date_time \<Rightarrow> bool \<Rightarrow> activity_logging_state \<Rightarrow> bool" where
  "credited datetime gpio_a4 state =
     (let after = fst (activity_logging_face_advise datetime gpio_a4 state)
      in active_minutes_today after = active_minutes_today state + 1
         \<and> hourly_data after ! hour datetime
             = (if minute datetime = 0 then 0 else hourly_data state ! hour datetime) + 1)"

fun credited_minutes :: "activity_logging_state \<Rightarrow> (watch_date_time \<times> bool) list \<Rightarrow> nat" where
  "credited_minutes state [] = 0"
| "credited_minutes state ((datetime, gpio_a4) # rest) =
     (if credited datetime gpio_a4 state then 1 else 0)
     + credited_minutes (fst (activity_logging_face_advise datetime gpio_a4 state)) rest"

text \<open>
  The number of minutes of a sequence of readings at which two consecutive active
  samples occurred: the reading shows motion (the pin reads false) and so did the
  reading of the minute before. \<open>prev\<close> tells whether the minute before the sequence
  showed motion.
\<close>

fun consecutive_active :: "bool \<Rightarrow> bool list \<Rightarrow> nat" where
  "consecutive_active prev [] = 0"
| "consecutive_active prev (gpio_a4 # rest) =
     (if \<not> gpio_a4 \<and> prev then 1 else 0) + consecutive_active (\<not> gpio_a4) rest"

text \<open>
  The invariants of the bubble sort. After the inner loop has run over the indices
  below \<open>m\<close>, a largest of the elements \<open>0 .. m\<close> sits at \<open>m\<close>, the elements above \<open>m\<close>
  are untouched and every element up to \<open>m\<close> was among the first \<open>m + 1\<close> before
  (\<open>inner_inv\<close>). After \<open>i\<close> passes of the outer loop every position from \<open>n - i\<close> on
  holds an element that is at least as large as all elements before it (\<open>outer_inv\<close>).
\<close>

definition inner_inv :: "nat \<Rightarrow> u16 list \<Rightarrow> u16 list \<Rightarrow> bool" where
  "inner_inv m xs ys =
     (length ys = length xs \<and> mset ys = mset xs
      \<and> (\<forall>k\<le>m. ys ! k \<le> ys ! m)
      \<and> (\<forall>k. m < k \<longrightarrow> ys ! k = xs ! k)
      \<and> (\<forall>k\<le>m. \<exists>k'\<le>m. ys ! k = xs ! k'))"

definition outer_inv :: "nat \<Rightarrow> nat \<Rightarrow> u16 list \<Rightarrow> bool" where
  "outer_inv n i ys =
     (length ys = n \<and> (\<forall>a b. a \<le> b \<and> b < n \<and> n - i \<le> b \<longrightarrow> ys ! a \<le> ys ! b))"

text \<open>
  Committing a sequence of daily totals, one deferred commit per day: the accumulator
  holds the day's total when the commit runs.
\<close>

definition commit_day :: "nat \<Rightarrow> u16 \<Rightarrow> activity_logging_state \<Rightarrow> activity_logging_state" where
  "commit_day N day_total state =
     background_task N (state\<lparr>active_minutes_today := day_total\<rparr>)"

definition commit_all :: "nat \<Rightarrow> activity_logging_state \<Rightarrow> u16 list \<Rightarrow> activity_logging_state" where
  "commit_all N state totals = fold (commit_day N) totals state"

text \<open>
  The runs of a sequence that fall in hour \<open>h\<close>.
\<close>

definition own_hour_runs :: "nat \<Rightarrow> (watch_date_time \<times> bool) list \<Rightarrow> nat" where
  "own_hour_runs h rs = length (filter (\<lambda>x. hour (fst x) = h) rs)"

text \<open>
  Regular operation: the clock advances by one minute per run of the sampler, and the
  host may deliver any events, the deferred commit among them or not, between two
  runs. \<open>minute_of k\<close> is the time of the \<open>k\<close>-th minute counted from a midnight (the
  day of the month plays no part in the state and is left at 1). \<open>face_run\<close> feeds
  a sequence of inputs to the face, starting at minute \<open>k\<close>.
\<close>

definition minute_of :: "nat \<Rightarrow> watch_date_time" where
  "minute_of k = \<lparr>second = 0, minute = k mod 60, hour = (k div 60) mod 24, day = 1\<rparr>"

datatype face_input = SAMPLE bool | HOST_EVENT movement_event_type

fun face_run ::
  "nat \<Rightarrow> nat \<Rightarrow> activity_logging_state \<Rightarrow> face_input list \<Rightarrow> activity_logging_state" where
  "face_run N k state [] = state"
| "face_run N k state (SAMPLE gpio_a4 # rest) =
     face_run N (Suc k) (fst (activity_logging_face_advise (minute_of k) gpio_a4 state)) rest"
| "face_run N k state (HOST_EVENT event # rest) =
     face_run N k (fst (activity_logging_face_loop N (minute_of k) event state)) rest"

text \<open>
  The invariant of the hourly slots in regular operation, before the sampler runs at
  minute \<open>k\<close>: the slot of the hour in progress holds at most the minutes of that hour
  already sampled, every other slot at most 60.
\<close>

definition slots_within :: "nat \<Rightarrow> activity_logging_state \<Rightarrow> bool" where
  "slots_within k state =
     (length (hourly_data state) = 24
      \<and> (\<forall>h<24. unat (hourly_data state ! h)
                  \<le> (if h = (k div 60) mod 24 \<and> k mod 60 \<noteq> 0 then k mod 60 else 60)))"

section \<open>Verification\<close>

subsection \<open>Minimum and maximum with index\<close>

lemma upt_from_1_Suc: "0 < m \<Longrightarrow> [Suc 0..<Suc m] = [Suc 0..<m] @ [m]"
  by simp

lemma last_min_at_step:
  assumes "last_min_at data m r" "0 < m"
  shows "last_min_at data (Suc m) (min_step data m r)"
proof (cases "data ! m \<le> fst r")
  case True
  then show ?thesis
    using assms by (auto simp: last_min_at_def min_step_def less_Suc_eq)
next
  case False
  then show ?thesis
    using assms by (auto simp: last_min_at_def min_step_def less_Suc_eq)
qed

lemma fold_min_step:
  "0 < n \<Longrightarrow> last_min_at data n (fold (min_step data) [1..<n] (data ! 0, 0))"
proof (induction n)
  case 0
  then show ?case by simp
next
  case (Suc m)
  show ?case
  proof (cases "m = 0")
    case True
    then show ?thesis by (simp add: last_min_at_def)
  next
    case False
    then have "0 < m" by simp
    with Suc.IH have "last_min_at data m (fold (min_step data) [1..<m] (data ! 0, 0))" by simp
    from last_min_at_step [OF this \<open>0 < m\<close>] \<open>0 < m\<close> show ?thesis
      by (simp add: upt_from_1_Suc del: upt_Suc)
  qed
qed

lemma last_max_at_step:
  assumes "last_max_at data m r" "0 < m"
  shows "last_max_at data (Suc m) (max_step data m r)"
proof (cases "data ! m \<ge> fst r")
  case True
  then show ?thesis
    using assms by (auto simp: last_max_at_def max_step_def less_Suc_eq)
next
  case False
  then show ?thesis
    using assms by (auto simp: last_max_at_def max_step_def less_Suc_eq)
qed

lemma fold_max_step:
  "0 < n \<Longrightarrow> last_max_at data n (fold (max_step data) [1..<n] (data ! 0, 0))"
proof (induction n)
  case 0
  then show ?case by simp
next
  case (Suc m)
  show ?case
  proof (cases "m = 0")
    case True
    then show ?thesis by (simp add: last_max_at_def)
  next
    case False
    then have "0 < m" by simp
    with Suc.IH have "last_max_at data m (fold (max_step data) [1..<m] (data ! 0, 0))" by simp
    from last_max_at_step [OF this \<open>0 < m\<close>] \<open>0 < m\<close> show ?thesis
      by (simp add: upt_from_1_Suc del: upt_Suc)
  qed
qed

text \<open>
  Claim C7. Over the first \<open>cnt\<close> elements of a window, the minimum scan returns a
  smallest element together with the highest index at which that value occurs, and the
  maximum scan a largest element with the highest index at which it occurs: ties go to
  the last occurrence. For the window 3, 7, 3, 7, ... of twelve elements the minimum is
  3 at index 10 and the maximum is 7 at index 11.
\<close>

theorem min_max_last_occurrence:
  assumes "0 < cnt" and "cnt \<le> length data"
  shows "(\<exists>v i. find_min_with_index data cnt = Some (v, i) \<and> i < cnt \<and> data ! i = v
            \<and> (\<forall>j<cnt. v \<le> data ! j) \<and> (\<forall>j<cnt. data ! j = v \<longrightarrow> j \<le> i))
       \<and> (\<exists>v i. find_max_with_index data cnt = Some (v, i) \<and> i < cnt \<and> data ! i = v
            \<and> (\<forall>j<cnt. data ! j \<le> v) \<and> (\<forall>j<cnt. data ! j = v \<longrightarrow> j \<le> i))
       \<and> find_min_with_index [3, 7, 3, 7, 3, 7, 3, 7, 3, 7, 3, 7] 12 = Some (3, 10)
       \<and> find_max_with_index [3, 7, 3, 7, 3, 7, 3, 7, 3, 7, 3, 7] 12 = Some (7, 11)"
proof -
  have ne: "data \<noteq> []" using assms by auto
  obtain v i where mn: "fold (min_step data) [1..<cnt] (data ! 0, 0) = (v, i)"
    by (cases "fold (min_step data) [1..<cnt] (data ! 0, 0)")
  obtain w k where mx: "fold (max_step data) [1..<cnt] (data ! 0, 0) = (w, k)"
    by (cases "fold (max_step data) [1..<cnt] (data ! 0, 0)")
  have a: "\<exists>v i. find_min_with_index data cnt = Some (v, i) \<and> i < cnt \<and> data ! i = v
            \<and> (\<forall>j<cnt. v \<le> data ! j) \<and> (\<forall>j<cnt. data ! j = v \<longrightarrow> j \<le> i)"
    using fold_min_step [OF assms(1), of data] assms(2) ne mn
    by (simp add: find_min_with_index_def last_min_at_def)
  have b: "\<exists>v i. find_max_with_index data cnt = Some (v, i) \<and> i < cnt \<and> data ! i = v
            \<and> (\<forall>j<cnt. data ! j \<le> v) \<and> (\<forall>j<cnt. data ! j = v \<longrightarrow> j \<le> i)"
    using fold_max_step [OF assms(1), of data] assms(2) ne mx
    by (simp add: find_max_with_index_def last_max_at_def)
  have c: "find_min_with_index [3, 7, 3, 7, 3, 7, 3, 7, 3, 7, 3, 7] 12 = Some (3, 10)"
    by (simp add: find_min_with_index_def min_step_def upt_rec)
  have d: "find_max_with_index [3, 7, 3, 7, 3, 7, 3, 7, 3, 7, 3, 7] 12 = Some (7, 11)"
    by (simp add: find_max_with_index_def max_step_def upt_rec)
  from a b c d show ?thesis by blast
qed

theorem min_max_last_occurrence_witness:
  "(0::nat) < 4 \<and> (4::nat) \<le> length [5, 2, 9, 2 :: u16]
   \<and> find_min_with_index [5, 2, 9, 2] 4 = Some (2, 3)
   \<and> find_max_with_index [5, 2, 9, 2] 4 = Some (9, 2)
   \<and> find_min_with_index [3, 7, 3, 7, 3, 7, 3, 7, 3, 7, 3, 7] 12 = Some (3, 10)
   \<and> find_max_with_index [3, 7, 3, 7, 3, 7, 3, 7, 3, 7, 3, 7] 12 = Some (7, 11)"
  using min_max_last_occurrence [of 4 "[5, 2, 9, 2]"]
  by (simp add: find_min_with_index_def min_step_def find_max_with_index_def max_step_def upt_rec)

subsection \<open>Concrete lists\<close>

lemma replicate_14:
  "replicate 14 x = [x, x, x, x, x, x, x, x, x, x, x, x, x, x]"
  by (simp add: numeral_eq_Suc)

subsection \<open>Frame of the mode handlers\<close>

lemma loop_background_task:
  "fst (activity_logging_face_loop N now EVENT_BACKGROUND_TASK state) = background_task N state"
  by (cases "mode state") (simp_all add: activity_logging_face_loop_def)

text \<open>
  Claim C9. Whatever event a mode handler receives, the state it returns has the
  tracked history of the state it was given: \<open>active_minutes_today\<close>,
  \<open>previous_minute_was_active\<close>, \<open>hourly_data\<close>, \<open>activity_log\<close> and \<open>data_points\<close> are
  unchanged by both the Day handler and the Histogram handler.
\<close>

theorem mode_handlers_keep_history:
  "active_minutes_today (fst (handle_day_events N now event state)) = active_minutes_today state
   \<and> previous_minute_was_active (fst (handle_day_events N now event state))
       = previous_minute_was_active state
   \<and> hourly_data (fst (handle_day_events N now event state)) = hourly_data state
   \<and> activity_log (fst (handle_day_events N now event state)) = activity_log state
   \<and> data_points (fst (handle_day_events N now event state)) = data_points state
   \<and> active_minutes_today (fst (handle_histogram_events N now event state))
       = active_minutes_today state
   \<and> previous_minute_was_active (fst (handle_histogram_events N now event state))
       = previous_minute_was_active state
   \<and> hourly_data (fst (handle_histogram_events N now event state)) = hourly_data state
   \<and> activity_log (fst (handle_histogram_events N now event state)) = activity_log state
   \<and> data_points (fst (handle_histogram_events N now event state)) = data_points state"
  by (cases event) (simp_all add: Let_def)

subsection \<open>The deferred commit\<close>

text \<open>
  Claim C10. The \<open>EVENT_BACKGROUND_TASK\<close> branch of the loop stores
  \<open>active_minutes_today\<close> at position \<open>data_points mod N\<close> of \<open>activity_log\<close>, adds 1 to
  \<open>data_points\<close> and resets \<open>active_minutes_today\<close> to 0, and changes nothing else: the
  debounce latch and \<open>hourly_data\<close> are as before. Hence, when the latch was set before
  the commit, a minute with motion right after it is credited at once:
  \<open>active_minutes_today\<close> becomes 1 and the slot of the hour is incremented.
\<close>

theorem commit_frame:
  "fst (activity_logging_face_loop N now EVENT_BACKGROUND_TASK state)
     = state\<lparr>activity_log :=
                (activity_log state)[unat (data_points state) mod N := active_minutes_today state],
              data_points := data_points state + 1,
              active_minutes_today := 0\<rparr>
   \<and> previous_minute_was_active (fst (activity_logging_face_loop N now EVENT_BACKGROUND_TASK state))
       = previous_minute_was_active state
   \<and> hourly_data (fst (activity_logging_face_loop N now EVENT_BACKGROUND_TASK state))
       = hourly_data state
   \<and> (previous_minute_was_active state \<and> hour datetime < length (hourly_data state) \<longrightarrow>
        (let after = fst (activity_logging_face_advise datetime False
                       (fst (activity_logging_face_loop N now EVENT_BACKGROUND_TASK state)))
         in active_minutes_today after = 1
            \<and> previous_minute_was_active after
            \<and> hourly_data after ! hour datetime
                = (if minute datetime = 0 then 0 else hourly_data state ! hour datetime) + 1))"
  by (simp add: loop_background_task background_task_def activity_logging_face_advise_def Let_def)

theorem commit_frame_witness:
  "previous_minute_was_active
     ((activity_logging_face_setup 14)\<lparr>active_minutes_today := 100,
         previous_minute_was_active := True\<rparr>)
   \<and> hour \<lparr>second = 0, minute = 1, hour = 0, day = 2\<rparr>
       < length (hourly_data ((activity_logging_face_setup 14)\<lparr>active_minutes_today := 100,
                   previous_minute_was_active := True\<rparr>))
   \<and> active_minutes_today
        (fst (activity_logging_face_advise \<lparr>second = 0, minute = 1, hour = 0, day = 2\<rparr> False
           (fst (activity_logging_face_loop 14 \<lparr>second = 0, minute = 0, hour = 0, day = 2\<rparr>
                  EVENT_BACKGROUND_TASK
                  ((activity_logging_face_setup 14)\<lparr>active_minutes_today := 100,
                      previous_minute_was_active := True\<rparr>))))) = 1
   \<and> activity_log
        (fst (activity_logging_face_loop 14 \<lparr>second = 0, minute = 0, hour = 0, day = 2\<rparr>
               EVENT_BACKGROUND_TASK
               ((activity_logging_face_setup 14)\<lparr>active_minutes_today := 100,
                   previous_minute_was_active := True\<rparr>)))
       = [100, 0, 0, 0, 0, 0, 0, 0, 0, 0, 0, 0, 0, 0]"
  using commit_frame [of 14 "\<lparr>second = 0, minute = 0, hour = 0, day = 2\<rparr>"
      "(activity_logging_face_setup 14)\<lparr>active_minutes_today := 100,
         previous_minute_was_active := True\<rparr>"
      "\<lparr>second = 0, minute = 1, hour = 0, day = 2\<rparr>"]
  by (simp add: activity_logging_face_setup_def loop_background_task background_task_def
      activity_logging_face_advise_def Let_def replicate_14)



subsection \<open>The sampler\<close>

lemma advise_latch:
  "previous_minute_was_active (fst (activity_logging_face_advise datetime gpio_a4 state))
     = (\<not> gpio_a4)"
  by (simp add: activity_logging_face_advise_def Let_def)

lemma advise_length_hourly:
  "length (hourly_data (fst (activity_logging_face_advise datetime gpio_a4 state)))
     = length (hourly_data state)"
  by (simp add: activity_logging_face_advise_def Let_def)

lemma advise_minutes:
  "active_minutes_today (fst (activity_logging_face_advise datetime gpio_a4 state))
     = active_minutes_today state
       + (if \<not> gpio_a4 \<and> previous_minute_was_active state then 1 else 0)"
  by (simp add: activity_logging_face_advise_def Let_def)

lemma advise_hour_slot:
  "hour datetime < length (hourly_data state) \<Longrightarrow>
   hourly_data (fst (activity_logging_face_advise datetime gpio_a4 state)) ! hour datetime
     = (if minute datetime = 0 then 0 else hourly_data state ! hour datetime)
       + (if \<not> gpio_a4 \<and> previous_minute_was_active state then 1 else 0)"
  by (simp add: activity_logging_face_advise_def Let_def)

lemma credited_iff:
  "hour datetime < length (hourly_data state) \<Longrightarrow>
   credited datetime gpio_a4 state = (\<not> gpio_a4 \<and> previous_minute_was_active state)"
  by (simp add: credited_def Let_def advise_minutes advise_hour_slot)

lemma advise_all_append:
  "advise_all state (xs @ ys) = advise_all (advise_all state xs) ys"
  by (induction xs arbitrary: state) auto

lemma advise_all_length_hourly:
  "length (hourly_data (advise_all state rs)) = length (hourly_data state)"
  by (induction rs arbitrary: state) (auto simp: advise_length_hourly)

lemma advise_all_take_Suc:
  assumes "k < length rs"
  shows "advise_all state (take (Suc k) rs)
           = fst (activity_logging_face_advise (fst (rs ! k)) (snd (rs ! k))
                   (advise_all state (take k rs)))"
  using assms by (cases "rs ! k") (simp add: take_Suc_conv_app_nth advise_all_append)

lemma advise_all_latch:
  "previous_minute_was_active (advise_all state rs)
     = (if rs = [] then previous_minute_was_active state else \<not> snd (last rs))"
  by (induction rs arbitrary: state) (auto simp: advise_latch)

lemma latch_before_minute:
  assumes "k < length rs"
  shows "previous_minute_was_active (advise_all state (take k rs))
           = (if k = 0 then previous_minute_was_active state else \<not> snd (rs ! (k - 1)))"
proof (cases k)
  case 0
  then show ?thesis by simp
next
  case (Suc j)
  with assms have "take k rs \<noteq> []" by auto
  moreover have "last (take k rs) = rs ! (k - 1)"
    using assms Suc by (simp add: take_Suc_conv_app_nth)
  ultimately show ?thesis using Suc by (simp add: advise_all_latch)
qed

lemma credited_minutes_eq:
  assumes "\<forall>x\<in>set rs. hour (fst x) < length (hourly_data state)"
  shows "credited_minutes state rs
           = consecutive_active (previous_minute_was_active state) (map snd rs)"
  using assms
proof (induction rs arbitrary: state)
  case Nil
  then show ?case by simp
next
  case (Cons x rs)
  obtain datetime gpio_a4 where x: "x = (datetime, gpio_a4)" by (cases x)
  let ?next = "fst (activity_logging_face_advise datetime gpio_a4 state)"
  from Cons.prems have h: "hour datetime < length (hourly_data state)"
    and rest: "\<forall>y\<in>set rs. hour (fst y) < length (hourly_data ?next)"
    by (simp_all add: x advise_length_hourly)
  from Cons.IH [OF rest] h show ?case
    by (simp add: x credited_iff advise_latch)
qed

text \<open>
  Claim C1. Let the sampler process any sequence of minutes, each with its time and its
  reading, starting from a state whose debounce latch is clear (as after \<open>setup\<close>, or
  after a minute without motion). Then minute \<open>k\<close> is credited, that is
  \<open>active_minutes_today\<close> and the slot of the current hour each grow by 1, exactly when
  its reading shows motion and it is not the first minute and the reading of minute
  \<open>k - 1\<close> showed motion as well; on every other minute \<open>active_minutes_today\<close> keeps its
  value. So the first minute of a streak is never credited, and the number of credited
  minutes equals, hence is at most, the number of minutes at which two consecutive
  active samples occurred.
\<close>

theorem debounced_credit:
  assumes "\<not> previous_minute_was_active state"
    and "\<forall>x\<in>set rs. hour (fst x) < length (hourly_data state)"
  shows "(\<forall>k<length rs.
            (credited (fst (rs ! k)) (snd (rs ! k)) (advise_all state (take k rs))
               = (\<not> snd (rs ! k) \<and> 0 < k \<and> \<not> snd (rs ! (k - 1))))
          \<and> active_minutes_today (advise_all state (take (Suc k) rs))
              = active_minutes_today (advise_all state (take k rs))
                + (if \<not> snd (rs ! k) \<and> 0 < k \<and> \<not> snd (rs ! (k - 1)) then 1 else 0))
       \<and> credited_minutes state rs = consecutive_active False (map snd rs)
       \<and> credited_minutes state rs \<le> consecutive_active False (map snd rs)"
proof -
  have step: "(credited (fst (rs ! k)) (snd (rs ! k)) (advise_all state (take k rs))
               = (\<not> snd (rs ! k) \<and> 0 < k \<and> \<not> snd (rs ! (k - 1))))
          \<and> active_minutes_today (advise_all state (take (Suc k) rs))
              = active_minutes_today (advise_all state (take k rs))
                + (if \<not> snd (rs ! k) \<and> 0 < k \<and> \<not> snd (rs ! (k - 1)) then 1 else 0)"
    if k: "k < length rs" for k
  proof -
    from k have "rs ! k \<in> set rs" by simp
    with assms(2) have h: "hour (fst (rs ! k)) < length (hourly_data (advise_all state (take k rs)))"
      by (simp add: advise_all_length_hourly)
    have l: "previous_minute_was_active (advise_all state (take k rs))
               = (0 < k \<and> \<not> snd (rs ! (k - 1)))"
      using latch_before_minute [OF k, of state] assms(1) by auto
    show ?thesis
      using k by (simp add: credited_iff [OF h] l advise_all_take_Suc advise_minutes)
  qed
  have total: "credited_minutes state rs = consecutive_active False (map snd rs)"
    using credited_minutes_eq [OF assms(2)] assms(1) by simp
  from step total show ?thesis by simp
qed

theorem debounced_credit_witness:
  "\<not> previous_minute_was_active (activity_logging_face_setup 14)
   \<and> credited \<lparr>second = 0, minute = 59, hour = 10, day = 1\<rparr> False
       (advise_all (activity_logging_face_setup 14)
          [(\<lparr>second = 0, minute = 58, hour = 10, day = 1\<rparr>, False)])
   \<and> \<not> credited \<lparr>second = 0, minute = 58, hour = 10, day = 1\<rparr> False
         (activity_logging_face_setup 14)
   \<and> credited_minutes (activity_logging_face_setup 14)
        [(\<lparr>second = 0, minute = 58, hour = 10, day = 1\<rparr>, False),
         (\<lparr>second = 0, minute = 59, hour = 10, day = 1\<rparr>, False),
         (\<lparr>second = 0, minute = 0, hour = 11, day = 1\<rparr>, False),
         (\<lparr>second = 0, minute = 1, hour = 11, day = 1\<rparr>, True),
         (\<lparr>second = 0, minute = 2, hour = 11, day = 1\<rparr>, False)] = 2
   \<and> consecutive_active False [False, False, False, True, False] = 2
   \<and> active_minutes_today
        (advise_all (activity_logging_face_setup 14)
          [(\<lparr>second = 0, minute = 58, hour = 10, day = 1\<rparr>, False),
           (\<lparr>second = 0, minute = 59, hour = 10, day = 1\<rparr>, False),
           (\<lparr>second = 0, minute = 0, hour = 11, day = 1\<rparr>, False),
           (\<lparr>second = 0, minute = 1, hour = 11, day = 1\<rparr>, True),
           (\<lparr>second = 0, minute = 2, hour = 11, day = 1\<rparr>, False)]) = 2"
proof -
  let ?rs = "[(\<lparr>second = 0, minute = 58, hour = 10, day = 1\<rparr>, False),
         (\<lparr>second = 0, minute = 59, hour = 10, day = 1\<rparr>, False),
         (\<lparr>second = 0, minute = 0, hour = 11, day = 1\<rparr>, False),
         (\<lparr>second = 0, minute = 1, hour = 11, day = 1\<rparr>, True),
         (\<lparr>second = 0, minute = 2, hour = 11, day = 1\<rparr>, False)]"
  have latch: "\<not> previous_minute_was_active (activity_logging_face_setup 14)"
    by (simp add: activity_logging_face_setup_def)
  have hours: "\<forall>x\<in>set ?rs. hour (fst x) < length (hourly_data (activity_logging_face_setup 14))"
    by (simp add: activity_logging_face_setup_def)
  note main = debounced_credit [OF latch hours]
  from main have total: "credited_minutes (activity_logging_face_setup 14) ?rs
      = consecutive_active False (map snd ?rs)" by blast
  from main have each: "\<forall>k<length ?rs.
      credited (fst (?rs ! k)) (snd (?rs ! k)) (advise_all (activity_logging_face_setup 14) (take k ?rs))
               = (\<not> snd (?rs ! k) \<and> 0 < k \<and> \<not> snd (?rs ! (k - 1)))" by blast
  from each [rule_format, of 1]
  have c1: "credited \<lparr>second = 0, minute = 59, hour = 10, day = 1\<rparr> False
       (advise_all (activity_logging_face_setup 14)
          [(\<lparr>second = 0, minute = 58, hour = 10, day = 1\<rparr>, False)])"
    by simp
  from each [rule_format, of 0]
  have c0: "\<not> credited \<lparr>second = 0, minute = 58, hour = 10, day = 1\<rparr> False
         (activity_logging_face_setup 14)"
    by simp
  have amt: "active_minutes_today (advise_all (activity_logging_face_setup 14) ?rs) = 2"
    by (simp add: advise_minutes advise_latch activity_logging_face_setup_def)
  from latch total c0 c1 amt show ?thesis by simp
qed

subsection \<open>No saturation\<close>

lemma unat_plus_one_le: "unat (w + 1 :: u16) \<le> unat w + 1"
  by (simp add: unat_word_ariths)

lemma advise_minutes_le:
  "unat (active_minutes_today (fst (activity_logging_face_advise datetime gpio_a4 state)))
     \<le> unat (active_minutes_today state) + 1"
  using unat_plus_one_le [of "active_minutes_today state"] by (simp add: advise_minutes)

lemma advise_slot_le:
  "h < length (hourly_data state) \<Longrightarrow>
   unat (hourly_data (fst (activity_logging_face_advise datetime gpio_a4 state)) ! h)
     \<le> unat (hourly_data state ! h) + 1"
  using unat_plus_one_le [of "hourly_data state ! h"]
  by (cases "h = hour datetime")
     (auto simp: activity_logging_face_advise_def Let_def)

lemma advise_all_minutes_le:
  "unat (active_minutes_today (advise_all state rs))
     \<le> unat (active_minutes_today state) + length rs"
proof (induction rs arbitrary: state)
  case Nil
  then show ?case by simp
next
  case (Cons x rs)
  obtain datetime gpio_a4 where x: "x = (datetime, gpio_a4)" by (cases x)
  from Cons.IH [of "fst (activity_logging_face_advise datetime gpio_a4 state)"]
    advise_minutes_le [of datetime gpio_a4 state]
  show ?case by (simp add: x)
qed

lemma streak_counts:
  assumes "previous_minute_was_active state" and "hour datetime < length (hourly_data state)"
    and "minute datetime \<noteq> 0"
  shows "active_minutes_today (advise_all state (replicate n (datetime, False)))
           = active_minutes_today state + of_nat n
         \<and> hourly_data (advise_all state (replicate n (datetime, False))) ! hour datetime
           = hourly_data state ! hour datetime + of_nat n"
  using assms
proof (induction n arbitrary: state)
  case 0
  then show ?case by simp
next
  case (Suc n)
  let ?next = "fst (activity_logging_face_advise datetime False state)"
  have "previous_minute_was_active ?next" by (simp add: advise_latch)
  moreover have "hour datetime < length (hourly_data ?next)"
    using Suc.prems by (simp add: advise_length_hourly)
  ultimately show ?case
    using Suc.IH [of ?next] Suc.prems by (simp add: advise_minutes advise_hour_slot)
qed

lemma streak_from_clear_latch:
  assumes "\<not> previous_minute_was_active state" and "hour datetime < length (hourly_data state)"
    and "minute datetime \<noteq> 0"
  shows "active_minutes_today (advise_all state (replicate (Suc n) (datetime, False)))
           = active_minutes_today state + of_nat n
         \<and> hourly_data (advise_all state (replicate (Suc n) (datetime, False))) ! hour datetime
           = hourly_data state ! hour datetime + of_nat n"
proof -
  let ?next = "fst (activity_logging_face_advise datetime False state)"
  have "previous_minute_was_active ?next" by (simp add: advise_latch)
  moreover have "hour datetime < length (hourly_data ?next)"
    using assms by (simp add: advise_length_hourly)
  ultimately show ?thesis
    using streak_counts [of ?next datetime n] assms
    by (simp add: advise_minutes advise_hour_slot)
qed

lemma advise_all_minutes_exact:
  "active_minutes_today (advise_all state rs)
     = active_minutes_today state
       + of_nat (consecutive_active (previous_minute_was_active state) (map snd rs))"
proof (induction rs arbitrary: state)
  case Nil
  then show ?case by simp
next
  case (Cons x rs)
  obtain datetime gpio_a4 where x: "x = (datetime, gpio_a4)" by (cases x)
  from Cons.IH [of "fst (activity_logging_face_advise datetime gpio_a4 state)"]
  show ?case by (simp add: x advise_minutes advise_latch)
qed

lemma loop_hourly_data:
  "hourly_data (fst (activity_logging_face_loop N now event state)) = hourly_data state"
proof -
  have day: "hourly_data (fst (handle_day_events N now event state)) = hourly_data state"
    by (cases event) (simp_all add: Let_def)
  have hist: "hourly_data (fst (handle_histogram_events N now event state)) = hourly_data state"
    by (cases event) (simp_all add: Let_def)
  have bg: "hourly_data (background_task N s) = hourly_data s" for s
    by (simp add: background_task_def Let_def)
  show ?thesis
    using day hist
    by (cases "mode state"; cases event)
       (simp_all add: activity_logging_face_loop_def split_beta bg)
qed

lemma advise_other_slot:
  "hour datetime \<noteq> h \<Longrightarrow>
   hourly_data (fst (activity_logging_face_advise datetime gpio_a4 state)) ! h
     = hourly_data state ! h"
  by (simp add: activity_logging_face_advise_def Let_def)

lemma advise_all_other_slots:
  "\<forall>x\<in>set rs. hour (fst x) \<noteq> h \<Longrightarrow>
   hourly_data (advise_all state rs) ! h = hourly_data state ! h"
proof (induction rs arbitrary: state)
  case Nil
  then show ?case by simp
next
  case (Cons x rs)
  obtain datetime gpio_a4 where x: "x = (datetime, gpio_a4)" by (cases x)
  from Cons.prems have "hour datetime \<noteq> h" and "\<forall>y\<in>set rs. hour (fst y) \<noteq> h"
    by (simp_all add: x)
  with Cons.IH [of "fst (activity_logging_face_advise datetime gpio_a4 state)"]
  show ?case by (simp add: x advise_other_slot)
qed

lemma advise_all_slot_own_hour:
  "h < length (hourly_data state) \<Longrightarrow>
   unat (hourly_data (advise_all state rs) ! h)
     \<le> unat (hourly_data state ! h) + own_hour_runs h rs"
proof (induction rs arbitrary: state)
  case Nil
  then show ?case by (simp add: own_hour_runs_def)
next
  case (Cons x rs)
  obtain datetime gpio_a4 where x: "x = (datetime, gpio_a4)" by (cases x)
  let ?next = "fst (activity_logging_face_advise datetime gpio_a4 state)"
  from Cons.prems have "h < length (hourly_data ?next)" by (simp add: advise_length_hourly)
  from Cons.IH [OF this]
  have rest: "unat (hourly_data (advise_all ?next rs) ! h)
                \<le> unat (hourly_data ?next ! h) + own_hour_runs h rs" .
  show ?case
  proof (cases "hour datetime = h")
    case True
    with rest advise_slot_le [OF Cons.prems, of datetime gpio_a4] show ?thesis
      by (simp add: x own_hour_runs_def)
  next
    case False
    with rest advise_other_slot [of datetime h gpio_a4 state] show ?thesis
      by (simp add: x own_hour_runs_def)
  qed
qed

lemma advise_reset_slot:
  assumes "hour datetime < length (hourly_data state)" and "minute datetime = 0"
  shows "unat (hourly_data (fst (activity_logging_face_advise datetime gpio_a4 state))
                 ! hour datetime) \<le> 1"
  using assms by (simp add: advise_hour_slot)

lemma slot_after_reset:
  assumes "hour datetime < length (hourly_data state)" and "minute datetime = 0"
  shows "unat (hourly_data (advise_all state ((datetime, gpio_a4) # rs)) ! hour datetime)
           \<le> 1 + own_hour_runs (hour datetime) rs"
proof -
  let ?next = "fst (activity_logging_face_advise datetime gpio_a4 state)"
  from assms(1) have "hour datetime < length (hourly_data ?next)"
    by (simp add: advise_length_hourly)
  from advise_all_slot_own_hour [OF this, of rs] advise_reset_slot [OF assms, of gpio_a4]
  show ?thesis by simp
qed

lemma advise_own_slot_le:
  assumes "hour datetime < length (hourly_data state)"
  shows "unat (hourly_data (fst (activity_logging_face_advise datetime gpio_a4 state))
                 ! hour datetime)
           \<le> (if minute datetime = 0 then 0 else unat (hourly_data state ! hour datetime)) + 1"
  using unat_plus_one_le [of "hourly_data state ! hour datetime"]
  by (simp add: advise_hour_slot [OF assms])

lemma next_minute_same_hour:
  "k mod 60 \<noteq> 59 \<Longrightarrow> Suc k mod 60 = Suc (k mod 60) \<and> Suc k div 60 = k div 60"
  by (simp add: mod_Suc div_Suc)

lemma next_minute_new_hour: "k mod 60 = 59 \<Longrightarrow> Suc k mod 60 = 0"
  by (simp add: mod_Suc)

lemma slots_within_setup: "slots_within k (activity_logging_face_setup N)"
  by (simp add: slots_within_def activity_logging_face_setup_def)

lemma slots_within_loop:
  "slots_within k state \<Longrightarrow>
   slots_within k (fst (activity_logging_face_loop N now event state))"
  by (simp add: slots_within_def loop_hourly_data)

lemma slots_within_advise:
  assumes inv: "slots_within k state"
  shows "slots_within (Suc k) (fst (activity_logging_face_advise (minute_of k) gpio_a4 state))"
proof -
  let ?t = "minute_of k"
  let ?next = "fst (activity_logging_face_advise ?t gpio_a4 state)"
  let ?H = "(k div 60) mod 24"
  let ?bound = "\<lambda>k h. if h = (k div 60) mod 24 \<and> k mod 60 \<noteq> 0 then k mod 60 else 60"
  from inv have len: "length (hourly_data state) = 24"
    and old: "\<And>h. h < 24 \<Longrightarrow> unat (hourly_data state ! h) \<le> ?bound k h"
    by (simp_all add: slots_within_def)
  have t: "minute ?t = k mod 60" "hour ?t = ?H" by (simp_all add: minute_of_def)
  have H: "?H < length (hourly_data state)" by (simp add: len)
  have "unat (hourly_data ?next ! h) \<le> ?bound (Suc k) h" if h: "h < 24" for h
  proof (cases "h = ?H")
    case False
    then have same: "hourly_data ?next ! h = hourly_data state ! h"
      by (simp add: advise_other_slot t)
    from old [OF h] False have le60: "unat (hourly_data state ! h) \<le> 60" by simp
    show ?thesis
    proof (cases "k mod 60 = 59")
      case True
      with le60 show ?thesis by (simp add: same next_minute_new_hour)
    next
      case False
      with \<open>h \<noteq> ?H\<close> le60 show ?thesis by (simp add: same next_minute_same_hour)
    qed
  next
    case True
    have "hour ?t < length (hourly_data state)" using H by (simp only: t)
    from advise_own_slot_le [OF this, of gpio_a4]
    have step: "unat (hourly_data ?next ! ?H)
                  \<le> (if k mod 60 = 0 then 0 else unat (hourly_data state ! ?H)) + 1"
      by (simp only: t)
    have "?H < 24" by simp
    from old [OF this] have before: "k mod 60 \<noteq> 0 \<Longrightarrow> unat (hourly_data state ! ?H) \<le> k mod 60"
      by simp
    show ?thesis
    proof (cases "k mod 60 = 59")
      case True
      with step before show ?thesis by (simp add: \<open>h = ?H\<close> next_minute_new_hour)
    next
      case False
      with step before show ?thesis
        by (cases "k mod 60 = 0") (simp_all add: \<open>h = ?H\<close> next_minute_same_hour)
    qed
  qed
  moreover have "length (hourly_data ?next) = 24" by (simp add: advise_length_hourly len)
  ultimately show ?thesis by (simp add: slots_within_def)
qed

lemma face_run_slots_within:
  "slots_within k state \<Longrightarrow> \<exists>k'. slots_within k' (face_run N k state inputs)"
proof (induction N k state inputs rule: face_run.induct)
  case (1 N k state)
  then show ?case by auto
next
  case (2 N k state gpio_a4 rest)
  from "2.IH" [OF slots_within_advise [OF "2.prems"]] show ?case by simp
next
  case (3 N k state event rest)
  from "3.IH" [OF slots_within_loop [OF "3.prems"]] show ?case by simp
qed

lemma slots_within_60:
  assumes "slots_within k state" and "h < 24"
  shows "unat (hourly_data state ! h) \<le> 60"
proof -
  have "k mod 60 \<le> 60" by simp
  with assms show ?thesis
    by (auto simp: slots_within_def split: if_splits dest!: spec [of _ h])
qed

lemma regular_operation_slots:
  "h < 24 \<Longrightarrow> unat (hourly_data (face_run N k (activity_logging_face_setup N) inputs) ! h) \<le> 60"
proof -
  assume h: "h < 24"
  from face_run_slots_within [OF slots_within_setup]
  obtain k' where "slots_within k' (face_run N k (activity_logging_face_setup N) inputs)" by blast
  from slots_within_60 [OF this h] show ?thesis .
qed

lemma regular_streak:
  "previous_minute_was_active state \<Longrightarrow>
   active_minutes_today (face_run N k state (replicate n (SAMPLE False)))
     = active_minutes_today state + of_nat n"
proof (induction n arbitrary: k state)
  case 0
  then show ?case by simp
next
  case (Suc n)
  let ?next = "fst (activity_logging_face_advise (minute_of k) False state)"
  have "previous_minute_was_active ?next" by (simp add: advise_latch)
  from Suc.IH [OF this, of "Suc k"] Suc.prems show ?case
    by (simp add: advise_minutes)
qed

lemma regular_streak_from_setup:
  "active_minutes_today
     (face_run N k (activity_logging_face_setup N) (replicate (Suc n) (SAMPLE False)))
     = of_nat n"
proof -
  let ?next = "fst (activity_logging_face_advise (minute_of k) False
                      (activity_logging_face_setup N))"
  have "previous_minute_was_active ?next" by (simp add: advise_latch)
  from regular_streak [OF this, of N "Suc k" n] show ?thesis
    by (simp add: advise_minutes activity_logging_face_setup_def)
qed

text \<open>
  Claim C3, as stated, fails. In regular operation from the state \<open>setup\<close> creates
  (the clock advancing one minute per run of the sampler, from midnight on), 1442
  minutes that all read motion, with no commit delivered, leave 1441 in
  \<open>active_minutes_today\<close>, above 1440. An hourly slot overruns when the sampler runs
  more than 60 times within its hour: 1442 runs that all fall at 12:30 leave 1441 in
  the slot of hour 12, above 60, and in \<open>active_minutes_today\<close>.
\<close>

theorem saturation_counterexample:
  "\<not> active_minutes_today
       (face_run 14 0 (activity_logging_face_setup 14) (replicate 1442 (SAMPLE False)))
     \<le> 1440
   \<and> \<not> active_minutes_today
       (advise_all (activity_logging_face_setup 14)
          (replicate 1442 (\<lparr>second = 0, minute = 30, hour = 12, day = 1\<rparr>, False))) \<le> 1440
   \<and> \<not> hourly_data
         (advise_all (activity_logging_face_setup 14)
            (replicate 1442 (\<lparr>second = 0, minute = 30, hour = 12, day = 1\<rparr>, False))) ! 12 \<le> 60"
proof -
  have suc: "Suc 1441 = 1442" by simp
  with streak_from_clear_latch [of "activity_logging_face_setup 14"
      "\<lparr>second = 0, minute = 30, hour = 12, day = 1\<rparr>" 1441]
  have "active_minutes_today
       (advise_all (activity_logging_face_setup 14)
          (replicate 1442 (\<lparr>second = 0, minute = 30, hour = 12, day = 1\<rparr>, False))) = 1441
     \<and> hourly_data
         (advise_all (activity_logging_face_setup 14)
            (replicate 1442 (\<lparr>second = 0, minute = 30, hour = 12, day = 1\<rparr>, False))) ! 12 = 1441"
    by (simp add: activity_logging_face_setup_def)
  moreover from regular_streak_from_setup [of 14 0 1441] suc
  have "active_minutes_today
       (face_run 14 0 (activity_logging_face_setup 14) (replicate 1442 (SAMPLE False))) = 1441"
    by simp
  ultimately show ?thesis by simp
qed

text \<open>
  Claim C3, amended. The counters do not saturate: a credited minute adds 1 to
  \<open>active_minutes_today\<close> and to the slot of the hour (reset first at minute 0)
  whatever they hold; the addition is that of 16-bit words. What bounds them is the
  number of sampler runs since their last reset.
  \<^item> \<open>active_minutes_today\<close> after a sequence of runs is its earlier value plus the
    number of minutes with two consecutive active samples, hence at most its earlier
    value plus the number of runs; after a commit it is at most the number of runs
    since that commit, so it stays within 1440 as long as a commit arrives at least
    every 1440 runs, and grows beyond when the commit is not delivered.
  \<^item> No event of the loop, the commit included, changes \<open>hourly_data\<close>. A run of the
    sampler in another hour leaves slot \<open>h\<close> as it is; over a sequence of runs the slot
    grows by at most the number of runs in hour \<open>h\<close>; and from a run of hour \<open>h\<close> at
    minute 0 on, which resets the slot, it is at most 1 plus the number of later runs in
    hour \<open>h\<close>. So a slot stays within 60 whenever its hour gets at most 60 runs from
    its reset on, commit or no commit.
  \<^item> In regular operation from \<open>setup\<close> (one run per minute of an advancing clock, any
    events in between or none) every hourly slot stays within 60.
\<close>

theorem counters_bounded_by_runs:
  "(previous_minute_was_active state \<and> hour datetime < length (hourly_data state) \<longrightarrow>
      active_minutes_today (fst (activity_logging_face_advise datetime False state))
        = active_minutes_today state + 1
      \<and> hourly_data (fst (activity_logging_face_advise datetime False state)) ! hour datetime
        = (if minute datetime = 0 then 0 else hourly_data state ! hour datetime) + 1)
   \<and> active_minutes_today (advise_all state rs)
       = active_minutes_today state
         + of_nat (consecutive_active (previous_minute_was_active state) (map snd rs))
   \<and> unat (active_minutes_today (advise_all state rs))
       \<le> unat (active_minutes_today state) + length rs
   \<and> unat (active_minutes_today
             (advise_all (fst (activity_logging_face_loop N now EVENT_BACKGROUND_TASK state)) rs))
       \<le> length rs
   \<and> hourly_data (fst (activity_logging_face_loop N now event state)) = hourly_data state
   \<and> (\<forall>h<length (hourly_data state).
        ((\<forall>x\<in>set rs. hour (fst x) \<noteq> h) \<longrightarrow>
           hourly_data (advise_all state rs) ! h = hourly_data state ! h)
        \<and> unat (hourly_data (advise_all state rs) ! h)
            \<le> unat (hourly_data state ! h) + own_hour_runs h rs
        \<and> (hour datetime = h \<and> minute datetime = 0 \<longrightarrow>
             unat (hourly_data (advise_all state ((datetime, gpio_a4) # rs)) ! h)
               \<le> 1 + own_hour_runs h rs))
   \<and> (\<forall>h<24. unat (hourly_data (face_run N k (activity_logging_face_setup N) inputs) ! h)
                \<le> 60)"
proof -
  have step: "previous_minute_was_active state \<and> hour datetime < length (hourly_data state) \<longrightarrow>
      active_minutes_today (fst (activity_logging_face_advise datetime False state))
        = active_minutes_today state + 1
      \<and> hourly_data (fst (activity_logging_face_advise datetime False state)) ! hour datetime
        = (if minute datetime = 0 then 0 else hourly_data state ! hour datetime) + 1"
    by (simp add: advise_minutes advise_hour_slot)
  have after_commit: "unat (active_minutes_today
             (advise_all (fst (activity_logging_face_loop N now EVENT_BACKGROUND_TASK state)) rs))
       \<le> length rs"
    using advise_all_minutes_le
      [of "fst (activity_logging_face_loop N now EVENT_BACKGROUND_TASK state)" rs]
    by (simp add: loop_background_task background_task_def Let_def)
  have slots: "((\<forall>x\<in>set rs. hour (fst x) \<noteq> h) \<longrightarrow>
           hourly_data (advise_all state rs) ! h = hourly_data state ! h)
        \<and> unat (hourly_data (advise_all state rs) ! h)
            \<le> unat (hourly_data state ! h) + own_hour_runs h rs
        \<and> (hour datetime = h \<and> minute datetime = 0 \<longrightarrow>
             unat (hourly_data (advise_all state ((datetime, gpio_a4) # rs)) ! h)
               \<le> 1 + own_hour_runs h rs)"
    if h: "h < length (hourly_data state)" for h
    using h advise_all_other_slots [of rs h state] advise_all_slot_own_hour [OF h, of rs]
      slot_after_reset [of datetime state gpio_a4 rs]
    by auto
  have regular: "\<forall>h<24. unat (hourly_data (face_run N k (activity_logging_face_setup N) inputs) ! h)
                \<le> 60"
    by (simp add: regular_operation_slots)
  note exact = advise_all_minutes_exact [of state rs]
    and bound = advise_all_minutes_le [of state rs]
    and frame = loop_hourly_data [of N now event state]
  from step exact bound after_commit frame slots regular show ?thesis
    by blast
qed

theorem counters_bounded_by_runs_witness:
  "previous_minute_was_active
     ((activity_logging_face_setup 14)\<lparr>active_minutes_today := 1440,
        previous_minute_was_active := True,
        hourly_data := (replicate 24 0)[12 := 60]\<rparr>)
   \<and> active_minutes_today
       (fst (activity_logging_face_advise \<lparr>second = 0, minute = 30, hour = 12, day = 1\<rparr> False
          ((activity_logging_face_setup 14)\<lparr>active_minutes_today := 1440,
             previous_minute_was_active := True,
             hourly_data := (replicate 24 0)[12 := 60]\<rparr>))) = 1441
   \<and> hourly_data
       (fst (activity_logging_face_advise \<lparr>second = 0, minute = 30, hour = 12, day = 1\<rparr> False
          ((activity_logging_face_setup 14)\<lparr>active_minutes_today := 1440,
             previous_minute_was_active := True,
             hourly_data := (replicate 24 0)[12 := 60]\<rparr>))) ! 12 = 61
   \<and> hourly_data
       (advise_all
          ((activity_logging_face_setup 14)\<lparr>active_minutes_today := 1440,
             previous_minute_was_active := True,
             hourly_data := (replicate 24 0)[12 := 60]\<rparr>)
          [(\<lparr>second = 0, minute = 0, hour = 12, day = 1\<rparr>, False),
           (\<lparr>second = 0, minute = 1, hour = 12, day = 1\<rparr>, False),
           (\<lparr>second = 0, minute = 0, hour = 13, day = 1\<rparr>, False)]) ! 12 = 2
   \<and> own_hour_runs 12
        [(\<lparr>second = 0, minute = 1, hour = 12, day = 1\<rparr>, False),
         (\<lparr>second = 0, minute = 0, hour = 13, day = 1\<rparr>, False)] = 1"
  using counters_bounded_by_runs [of
      "(activity_logging_face_setup 14)\<lparr>active_minutes_today := 1440,
        previous_minute_was_active := True,
        hourly_data := (replicate 24 0)[12 := 60]\<rparr>"
      "\<lparr>second = 0, minute = 30, hour = 12, day = 1\<rparr>" "[]"]
    counters_bounded_by_runs [of
      "(activity_logging_face_setup 14)\<lparr>active_minutes_today := 1440,
        previous_minute_was_active := True,
        hourly_data := (replicate 24 0)[12 := 60]\<rparr>"
      "\<lparr>second = 0, minute = 0, hour = 12, day = 1\<rparr>"
      "[(\<lparr>second = 0, minute = 1, hour = 12, day = 1\<rparr>, False),
        (\<lparr>second = 0, minute = 0, hour = 13, day = 1\<rparr>, False)]"]
  by (simp add: activity_logging_face_setup_def activity_logging_face_advise_def
      own_hour_runs_def Let_def)

subsection \<open>Mode changes\<close>

lemma loop_event_cases:
  "fst (activity_logging_face_loop N now event state)
     = (let state1 = (case mode state of
                        MODE_DAY \<Rightarrow> fst (handle_day_events N now event state)
                      | MODE_HISTOGRAM \<Rightarrow> fst (handle_histogram_events N now event state))
        in if event = EVENT_BACKGROUND_TASK then background_task N state1 else state1)"
  by (cases "mode state"; cases event)
     (simp_all add: activity_logging_face_loop_def Let_def split_beta)

lemma background_task_view:
  "mode (background_task N state) = mode state
   \<and> display_index (background_task N state) = display_index state"
  by (simp add: background_task_def Let_def)

lemma day_events_index:
  "mode state = MODE_DAY \<Longrightarrow>
   mode (fst (handle_day_events N now event state)) = MODE_HISTOGRAM \<Longrightarrow>
   display_index (fst (handle_day_events N now event state)) = 0"
  by (cases event) (simp_all add: Let_def split: if_splits)

lemma histogram_events_index:
  "display_index state = 0 \<Longrightarrow>
   display_index (fst (handle_histogram_events N now event state)) = 0"
  by (cases event) (simp_all add: Let_def)

lemma reachable_histogram_index:
  "reachable N state \<Longrightarrow> mode state = MODE_HISTOGRAM \<Longrightarrow> display_index state = 0"
proof (induction rule: reachable.induct)
  case reach_setup
  then show ?case by (simp add: activity_logging_face_setup_def)
next
  case (reach_activate state)
  then show ?case by (simp add: activity_logging_face_activate_def)
next
  case (reach_loop state now event)
  show ?case
  proof (cases "mode state")
    case MODE_DAY
    with reach_loop.prems day_events_index [of state N now event] show ?thesis
      by (simp add: loop_event_cases Let_def background_task_view split: if_splits)
  next
    case MODE_HISTOGRAM
    with reach_loop.IH histogram_events_index [of state N now event] show ?thesis
      by (simp add: loop_event_cases Let_def background_task_view)
  qed
next
  case (reach_advise state datetime gpio_a4)
  then show ?case by (simp add: activity_logging_face_advise_def Let_def split: if_splits)
qed

text \<open>
  Claim C4. In every state the face can reach, a long press of the light button
  toggles the mode, and when the new mode is Day, \<open>display_index\<close> is 0 after the
  transition. (The assignment of 0 is made by the Day handler, when it enters
  Histogram mode; nothing in Histogram mode changes \<open>display_index\<close> from 0, so the
  Histogram handler, which does not write it, enters Day mode at index 0.)
\<close>

theorem long_press_toggles_mode:
  assumes "reachable N state"
  shows "mode (fst (activity_logging_face_loop N now EVENT_LIGHT_LONG_PRESS state))
           = (if mode state = MODE_DAY then MODE_HISTOGRAM else MODE_DAY)
         \<and> (mode (fst (activity_logging_face_loop N now EVENT_LIGHT_LONG_PRESS state)) = MODE_DAY
              \<longrightarrow> display_index
                    (fst (activity_logging_face_loop N now EVENT_LIGHT_LONG_PRESS state)) = 0)"
proof (cases "mode state")
  case MODE_DAY
  then show ?thesis by (simp add: loop_event_cases Let_def)
next
  case MODE_HISTOGRAM
  with reachable_histogram_index [OF assms] show ?thesis
    by (simp add: loop_event_cases Let_def)
qed

theorem long_press_toggles_mode_witness:
  "reachable 14
     (fst (activity_logging_face_loop 14 \<lparr>second = 5, minute = 30, hour = 12, day = 1\<rparr>
        EVENT_LIGHT_LONG_PRESS
        (fst (activity_logging_face_loop 14 \<lparr>second = 3, minute = 30, hour = 12, day = 1\<rparr>
           EVENT_ALARM_BUTTON_DOWN (activity_logging_face_setup 14)))))
   \<and> mode
       (fst (activity_logging_face_loop 14 \<lparr>second = 5, minute = 30, hour = 12, day = 1\<rparr>
          EVENT_LIGHT_LONG_PRESS
          (fst (activity_logging_face_loop 14 \<lparr>second = 3, minute = 30, hour = 12, day = 1\<rparr>
             EVENT_ALARM_BUTTON_DOWN (activity_logging_face_setup 14))))) = MODE_HISTOGRAM
   \<and> mode
       (fst (activity_logging_face_loop 14 \<lparr>second = 9, minute = 30, hour = 12, day = 1\<rparr>
          EVENT_LIGHT_LONG_PRESS
          (fst (activity_logging_face_loop 14 \<lparr>second = 5, minute = 30, hour = 12, day = 1\<rparr>
             EVENT_LIGHT_LONG_PRESS
             (fst (activity_logging_face_loop 14 \<lparr>second = 3, minute = 30, hour = 12, day = 1\<rparr>
                EVENT_ALARM_BUTTON_DOWN (activity_logging_face_setup 14))))))) = MODE_DAY
   \<and> display_index
       (fst (activity_logging_face_loop 14 \<lparr>second = 9, minute = 30, hour = 12, day = 1\<rparr>
          EVENT_LIGHT_LONG_PRESS
          (fst (activity_logging_face_loop 14 \<lparr>second = 5, minute = 30, hour = 12, day = 1\<rparr>
             EVENT_LIGHT_LONG_PRESS
             (fst (activity_logging_face_loop 14 \<lparr>second = 3, minute = 30, hour = 12, day = 1\<rparr>
                EVENT_ALARM_BUTTON_DOWN (activity_logging_face_setup 14))))))) = 0"
proof -
  let ?s1 = "fst (activity_logging_face_loop 14 \<lparr>second = 3, minute = 30, hour = 12, day = 1\<rparr>
           EVENT_ALARM_BUTTON_DOWN (activity_logging_face_setup 14))"
  let ?s2 = "fst (activity_logging_face_loop 14 \<lparr>second = 5, minute = 30, hour = 12, day = 1\<rparr>
        EVENT_LIGHT_LONG_PRESS ?s1)"
  have r2: "reachable 14 ?s2"
    by (intro reach_loop reach_setup)
  have m1: "mode ?s1 = MODE_DAY"
    by (simp add: loop_event_cases Let_def activity_logging_face_setup_def)
  then have m2: "mode ?s2 = MODE_HISTOGRAM"
    by (simp add: loop_event_cases Let_def)
  from long_press_toggles_mode [OF r2, of "\<lparr>second = 9, minute = 30, hour = 12, day = 1\<rparr>"] m2 r2
  show ?thesis by simp
qed

subsection \<open>The historical page\<close>

lemma sint_ucast_small:
  assumes "unat (w :: u32) < 32768"
  shows "sint (ucast w :: u16) = int (unat w)"
proof -
  from assms have "int (unat w) < 32768" by linarith
  then have small: "uint w < 32768" by simp
  have nonneg: "0 \<le> uint w" by simp
  have p16: "(2::int) ^ 16 = 65536" and p15: "(2::int) ^ 15 = 32768" by simp_all
  have "take_bit 16 (uint w) = uint w"
    by (rule take_bit_int_eq_self [OF nonneg]) (use small p16 in linarith)
  moreover have "uint (ucast w :: u16) = take_bit 16 (uint w)"
    by (simp add: unsigned_ucast_eq)
  ultimately have "uint (ucast w :: u16) = uint w" by simp
  moreover have "sint (ucast w :: u16) = signed_take_bit 15 (uint (ucast w :: u16))"
    by (simp add: sint_uint)
  ultimately have "sint (ucast w :: u16) = signed_take_bit 15 (uint w)"
    by simp
  also have "\<dots> = uint w"
    by (rule signed_take_bit_int_eq_self) (use small nonneg p15 in linarith)+
  finally show ?thesis by simp
qed

lemma c_rem_nonneg: "0 \<le> a \<Longrightarrow> c_rem a (int N) = a mod int N"
  by (cases "a = 0") (simp_all add: c_rem_def)

lemma c_rem_neg_small:
  assumes "a < 0" and "- a < int N"
  shows "c_rem a (int N) = a"
  using assms by (simp add: c_rem_def)

lemma log_pos_committed:
  assumes "unat (data_points state) < 32768"
    and "unat (display_index state) \<le> unat (data_points state)"
  shows "log_pos N state
           = int ((unat (data_points state) - unat (display_index state)) mod N)"
proof -
  have "sint (ucast (data_points state) :: u16) - uint (display_index state)
          = int (unat (data_points state) - unat (display_index state))"
    using assms by (simp add: sint_ucast_small)
  then show ?thesis
    by (simp add: log_pos_def c_rem_nonneg zmod_int)
qed

lemma log_pos_beyond:
  assumes "unat (data_points state) < 32768"
    and "unat (data_points state) < unat (display_index state)"
    and "unat (display_index state) < N"
  shows "log_pos N state < 0"
proof -
  let ?a = "sint (ucast (data_points state) :: u16) - uint (display_index state)"
  have a: "?a = int (unat (data_points state)) - int (unat (display_index state))"
    using assms(1) by (simp add: sint_ucast_small)
  have "int (unat (data_points state)) < int (unat (display_index state))"
    and "int (unat (display_index state)) < int N"
    using assms(2,3) by (simp_all only: of_nat_less_iff)
  with a have "?a < 0" and "- ?a < int N" by linarith+
  from c_rem_neg_small [OF this] \<open>?a < 0\<close> show ?thesis
    by (simp add: log_pos_def)
qed

text \<open>
  Claim C8, amended. As long as fewer than 32768 commits have been made, for every
  \<open>display_index\<close> from 1 to \<open>N - 1\<close> the historical page reports no data exactly when the
  index exceeds \<open>data_points\<close>, and otherwise shows the recorded value
  \<open>activity_log[(data_points - display_index) mod N]\<close>; the two outcomes are distinct
  pages, so a recorded 0 is shown as the count 0.
\<close>

theorem historical_page:
  assumes "unat (data_points state) < 32768"
    and "display_index state \<noteq> 0"
    and "unat (display_index state) < N"
  shows "handle_today_page N now state
           = (if unat (data_points state) < unat (display_index state)
              then PAGE_LOG_NO_DATA (display_index state)
              else PAGE_LOG_COUNT (display_index state)
                     (activity_log state
                        ! ((unat (data_points state) - unat (display_index state)) mod N)))"
proof (cases "unat (data_points state) < unat (display_index state)")
  case True
  from log_pos_beyond [OF assms(1) True assms(3)] True assms(2) show ?thesis
    by (simp add: handle_today_page_def Let_def)
next
  case False
  then have "unat (display_index state) \<le> unat (data_points state)" by simp
  from log_pos_committed [OF assms(1) this, of N] False assms(2) show ?thesis
    by (simp add: handle_today_page_def Let_def)
qed

text \<open>
  Claim C8, as stated, fails. With 32768 commits made and the page of yesterday
  selected, the day is within the committed history, yet the page reports no data: the
  cast to \<open>int16_t\<close> turns 32768 into -32768.
\<close>

theorem historical_page_counterexample:
  "unat (display_index
          ((activity_logging_face_setup 14)\<lparr>activity_log := replicate 14 7,
              data_points := 32768, display_index := 1\<rparr>))
     \<le> unat (data_points
          ((activity_logging_face_setup 14)\<lparr>activity_log := replicate 14 7,
              data_points := 32768, display_index := 1\<rparr>))
   \<and> handle_today_page 14 \<lparr>second = 0, minute = 30, hour = 12, day = 1\<rparr>
        ((activity_logging_face_setup 14)\<lparr>activity_log := replicate 14 7,
            data_points := 32768, display_index := 1\<rparr>)
      = PAGE_LOG_NO_DATA 1"
  by (simp add: handle_today_page_def log_pos_def c_rem_def Let_def)

theorem historical_page_witness:
  "unat (data_points \<lparr>activity_log = [0, 25, 40, 0, 0, 0, 0, 0, 0, 0, 0, 0, 0, 0],
       data_points = 3, display_index = 3,
       active_minutes_today = 12, previous_minute_was_active = False,
       hourly_data = replicate 24 0, mode = MODE_DAY,
       histogram_view = HISTOGRAM_VIEW_CHART, timeframe_mode = ACTIVITY_LOGGING_TIMEFRAME_12H,
       show_emoticon = False, emoticon_tick_count = 0\<rparr>) < 32768
   \<and> handle_today_page 14 \<lparr>second = 0, minute = 30, hour = 12, day = 9\<rparr>
       \<lparr>activity_log = [0, 25, 40, 0, 0, 0, 0, 0, 0, 0, 0, 0, 0, 0],
        data_points = 3, display_index = 3,
        active_minutes_today = 12, previous_minute_was_active = False,
        hourly_data = replicate 24 0, mode = MODE_DAY,
        histogram_view = HISTOGRAM_VIEW_CHART, timeframe_mode = ACTIVITY_LOGGING_TIMEFRAME_12H,
        show_emoticon = False, emoticon_tick_count = 0\<rparr>
      = PAGE_LOG_COUNT 3 0
   \<and> handle_today_page 14 \<lparr>second = 0, minute = 30, hour = 12, day = 9\<rparr>
       \<lparr>activity_log = [0, 25, 40, 0, 0, 0, 0, 0, 0, 0, 0, 0, 0, 0],
        data_points = 3, display_index = 4,
        active_minutes_today = 12, previous_minute_was_active = False,
        hourly_data = replicate 24 0, mode = MODE_DAY,
        histogram_view = HISTOGRAM_VIEW_CHART, timeframe_mode = ACTIVITY_LOGGING_TIMEFRAME_12H,
        show_emoticon = False, emoticon_tick_count = 0\<rparr>
      = PAGE_LOG_NO_DATA 4"
  using historical_page [of "\<lparr>activity_log = [0, 25, 40, 0, 0, 0, 0, 0, 0, 0, 0, 0, 0, 0],
       data_points = 3, display_index = 3,
       active_minutes_today = 12, previous_minute_was_active = False,
       hourly_data = replicate 24 0, mode = MODE_DAY,
       histogram_view = HISTOGRAM_VIEW_CHART, timeframe_mode = ACTIVITY_LOGGING_TIMEFRAME_12H,
       show_emoticon = False, emoticon_tick_count = 0\<rparr>" 14
       "\<lparr>second = 0, minute = 30, hour = 12, day = 9\<rparr>"]
    historical_page [of "\<lparr>activity_log = [0, 25, 40, 0, 0, 0, 0, 0, 0, 0, 0, 0, 0, 0],
       data_points = 3, display_index = 4,
       active_minutes_today = 12, previous_minute_was_active = False,
       hourly_data = replicate 24 0, mode = MODE_DAY,
       histogram_view = HISTOGRAM_VIEW_CHART, timeframe_mode = ACTIVITY_LOGGING_TIMEFRAME_12H,
       show_emoticon = False, emoticon_tick_count = 0\<rparr>" 14
       "\<lparr>second = 0, minute = 30, hour = 12, day = 9\<rparr>"]
  by simp

subsection \<open>The median\<close>

lemma bubble_swap_length: "length (bubble_swap j xs) = length xs"
  by (simp add: bubble_swap_def)

lemma bubble_swap_mset: "j + 1 < length xs \<Longrightarrow> mset (bubble_swap j xs) = mset xs"
  using mset_swap [of "j + 1" xs j] by (simp add: bubble_swap_def)

lemma inner_inv_start: "inner_inv 0 xs xs"
  by (simp add: inner_inv_def)

lemma inner_inv_step:
  assumes inv: "inner_inv m xs zs" and m: "Suc m < length xs"
  shows "inner_inv (Suc m) xs (bubble_swap m zs)"
proof -
  from inv have len: "length zs = length xs" and ms: "mset zs = mset xs"
    and top: "\<And>k. k \<le> m \<Longrightarrow> zs ! k \<le> zs ! m"
    and above: "\<And>k. m < k \<Longrightarrow> zs ! k = xs ! k"
    and from_below: "\<And>k. k \<le> m \<Longrightarrow> \<exists>k'\<le>m. zs ! k = xs ! k'"
    by (auto simp: inner_inv_def)
  let ?ys = "bubble_swap m zs"
  have l: "length ?ys = length xs" by (simp add: bubble_swap_length len)
  have s: "mset ?ys = mset xs" using m len ms by (simp add: bubble_swap_mset)
  have nth: "?ys ! k = (if zs ! m > zs ! Suc m
                         then (if k = m then zs ! Suc m else if k = Suc m then zs ! m else zs ! k)
                         else zs ! k)" for k
    using m len by (auto simp: bubble_swap_def nth_list_update)
  have a: "?ys ! k \<le> ?ys ! Suc m" if "k \<le> Suc m" for k
  proof (cases "k = Suc m")
    case True
    then show ?thesis by simp
  next
    case False
    with that have "k \<le> m" by simp
    from top [OF this] show ?thesis
      by (auto simp: nth)
  qed
  have b: "?ys ! k = xs ! k" if "Suc m < k" for k
    using that above [of k] by (simp add: nth)
  have c: "\<exists>k'\<le>Suc m. ?ys ! k = xs ! k'" if "k \<le> Suc m" for k
  proof -
    have up: "zs ! Suc m = xs ! Suc m" using above [of "Suc m"] by simp
    obtain m' where m': "m' \<le> m" "zs ! m = xs ! m'" using from_below [of m] by auto
    show ?thesis
    proof (cases "k = Suc m \<or> k = m")
      case True
      then show ?thesis
        using up m' by (auto simp: nth intro: le_SucI)
    next
      case False
      with that have "k \<le> m" by simp
      from from_below [OF this] obtain k' where "k' \<le> m" "zs ! k = xs ! k'" by auto
      with False show ?thesis by (auto simp: nth intro: le_SucI)
    qed
  qed
  from l s a b c show ?thesis by (simp add: inner_inv_def)
qed

lemma inner_loop:
  "m < length xs \<Longrightarrow> inner_inv m xs (fold bubble_swap [0..<m] xs)"
proof (induction m)
  case 0
  then show ?case by (simp add: inner_inv_start)
next
  case (Suc m)
  then have "inner_inv m xs (fold bubble_swap [0..<m] xs)" by simp
  from inner_inv_step [OF this Suc.prems] show ?case by simp
qed

lemma outer_inv_start: "outer_inv (length xs) 0 xs"
  by (auto simp: outer_inv_def)

lemma outer_inv_step:
  assumes inv: "outer_inv n i xs" and i: "Suc i < n"
  shows "outer_inv n (Suc i) (bubble_pass n i xs)"
proof -
  let ?m = "n - i - 1"
  let ?ys = "bubble_pass n i xs"
  from inv have len: "length xs = n"
    and ord: "\<And>a b. a \<le> b \<Longrightarrow> b < n \<Longrightarrow> n - i \<le> b \<Longrightarrow> xs ! a \<le> xs ! b"
    by (auto simp: outer_inv_def)
  from i len have "?m < length xs" by simp
  from inner_loop [OF this] have inner: "inner_inv ?m xs ?ys"
    by (simp add: bubble_pass_def)
  then have l: "length ?ys = n"
    and top: "\<And>k. k \<le> ?m \<Longrightarrow> ?ys ! k \<le> ?ys ! ?m"
    and above: "\<And>k. ?m < k \<Longrightarrow> ?ys ! k = xs ! k"
    and from_below: "\<And>k. k \<le> ?m \<Longrightarrow> \<exists>k'\<le>?m. ?ys ! k = xs ! k'"
    using len by (auto simp: inner_inv_def)
  have "?ys ! a \<le> ?ys ! b" if ab: "a \<le> b" and b: "b < n" and lo: "n - Suc i \<le> b" for a b
  proof (cases "b = ?m")
    case True
    with ab top [of a] show ?thesis by simp
  next
    case False
    with lo have mb: "?m < b" by simp
    then have nb: "n - i \<le> b" using i by simp
    show ?thesis
    proof (cases "?m < a")
      case True
      with mb above [of a] above [of b] ord [OF ab b nb] show ?thesis by simp
    next
      case False
      then have "a \<le> ?m" by simp
      from from_below [OF this] obtain k' where k': "k' \<le> ?m" "?ys ! a = xs ! k'" by auto
      from k'(1) mb have "k' \<le> b" by simp
      from ord [OF this b nb] k'(2) above [OF mb] show ?thesis by simp
    qed
  qed
  with l show ?thesis by (simp add: outer_inv_def)
qed

lemma bubble_pass_mset:
  "i < length xs \<Longrightarrow> mset (bubble_pass (length xs) i xs) = mset xs"
  using inner_loop [of "length xs - i - 1" xs]
  by (simp add: bubble_pass_def inner_inv_def)

lemma bubble_pass_length:
  "i < length xs \<Longrightarrow> length (bubble_pass (length xs) i xs) = length xs"
  using inner_loop [of "length xs - i - 1" xs]
  by (simp add: bubble_pass_def inner_inv_def)

lemma outer_loop:
  "j < length xs \<Longrightarrow>
   outer_inv (length xs) j (fold (bubble_pass (length xs)) [0..<j] xs)
   \<and> mset (fold (bubble_pass (length xs)) [0..<j] xs) = mset xs"
proof (induction j)
  case 0
  then show ?case by (simp add: outer_inv_start)
next
  case (Suc j)
  let ?zs = "fold (bubble_pass (length xs)) [0..<j] xs"
  from Suc have inv: "outer_inv (length xs) j ?zs" and ms: "mset ?zs = mset xs" by simp_all
  from inv have len: "length ?zs = length xs" by (simp add: outer_inv_def)
  from outer_inv_step [OF inv Suc.prems]
  have "outer_inv (length xs) (Suc j) (bubble_pass (length xs) j ?zs)" .
  moreover have "mset (bubble_pass (length xs) j ?zs) = mset xs"
    using bubble_pass_mset [of j ?zs] len ms Suc.prems by simp
  ultimately show ?case by simp
qed

lemma bubble_sort_sorts:
  assumes "xs \<noteq> []"
  shows "bubble_sort (length xs) xs = sort xs"
proof -
  let ?ys = "bubble_sort (length xs) xs"
  from assms have "length xs - 1 < length xs" by (cases xs) simp_all
  from outer_loop [OF this]
  have inv: "outer_inv (length xs) (length xs - 1) ?ys" and ms: "mset ?ys = mset xs"
    by (simp_all add: bubble_sort_def)
  from inv have len: "length ?ys = length xs"
    and ord: "\<And>a b. a \<le> b \<Longrightarrow> b < length xs \<Longrightarrow> 1 \<le> b \<Longrightarrow> ?ys ! a \<le> ?ys ! b"
    by (auto simp: outer_inv_def)
  have "?ys ! a \<le> ?ys ! b" if "a \<le> b" "b < length ?ys" for a b
  proof (cases "b = 0")
    case True
    with that show ?thesis by simp
  next
    case False
    with that ord [of a b] len show ?thesis by simp
  qed
  then have "sorted ?ys" by (simp add: sorted_iff_nth_mono)
  with ms show ?thesis by (simp add: properties_for_sort)
qed

lemma copy_loop: "n \<le> length data \<Longrightarrow> map (\<lambda>i. data ! i) [0..<n] = take n data"
  by (rule nth_equalityI) simp_all

lemma median_value_fits:
  "unat (of_nat ((unat (a :: u16) + unat (b :: u16)) div 2) :: u16) = (unat a + unat b) div 2"
proof -
  have "unat a < 65536" and "unat b < 65536"
    using unsigned_less [of a, where 'a = nat] unsigned_less [of b, where 'a = nat] by simp_all
  then have "(unat a + unat b) div 2 < 2 ^ LENGTH(16)" by simp
  then show ?thesis by (simp add: unat_of_nat)
qed

lemma calculate_median_12:
  assumes "length data = 12"
  shows "calculate_median data 12
           = Some (data, of_nat ((unat (sort data ! 5) + unat (sort data ! 6)) div 2))"
proof -
  from assms have ne: "data \<noteq> []" by auto
  have "map (\<lambda>i. data ! i) [0..<12] = data"
    using copy_loop [of 12 data] assms by simp
  moreover have "bubble_sort 12 data = sort data"
    using bubble_sort_sorts [OF ne] assms by simp
  ultimately show ?thesis
    using assms by (simp add: calculate_median_def Let_def)
qed

text \<open>
  Claim C6. For every window of twelve values the median function returns the mean,
  truncated to an integer, of the two central values of the window sorted ascending
  (the elements 5 and 6 of the sorted window, counting from 0), and it returns the
  caller's buffer as it received it. The window 1, 2, ..., 12 yields 6 and the window
  of eleven 5s followed by a 4 yields 5.
\<close>

theorem median_of_window:
  assumes "length data = 12"
  shows "(\<exists>m. calculate_median data 12 = Some (data, m)
              \<and> unat m = (unat (sort data ! 5) + unat (sort data ! 6)) div 2)
         \<and> calculate_median [1, 2, 3, 4, 5, 6, 7, 8, 9, 10, 11, 12] 12
             = Some ([1, 2, 3, 4, 5, 6, 7, 8, 9, 10, 11, 12], 6)
         \<and> calculate_median [5, 5, 5, 5, 5, 5, 5, 5, 5, 5, 5, 4] 12
             = Some ([5, 5, 5, 5, 5, 5, 5, 5, 5, 5, 5, 4], 5)"
proof -
  have a: "\<exists>m. calculate_median data 12 = Some (data, m)
              \<and> unat m = (unat (sort data ! 5) + unat (sort data ! 6)) div 2"
    using calculate_median_12 [OF assms] median_value_fits by simp
  have s1: "sort [1, 2, 3, 4, 5, 6, 7, 8, 9, 10, 11, 12 :: u16]
              = [1, 2, 3, 4, 5, 6, 7, 8, 9, 10, 11, 12]"
    by simp
  have s2: "sort [5, 5, 5, 5, 5, 5, 5, 5, 5, 5, 5, 4 :: u16]
              = [4, 5, 5, 5, 5, 5, 5, 5, 5, 5, 5, 5]"
    by simp
  have b: "calculate_median [1, 2, 3, 4, 5, 6, 7, 8, 9, 10, 11, 12] 12
             = Some ([1, 2, 3, 4, 5, 6, 7, 8, 9, 10, 11, 12], 6)"
    using calculate_median_12 [of "[1, 2, 3, 4, 5, 6, 7, 8, 9, 10, 11, 12]"]
    by (simp add: s1)
  have c: "calculate_median [5, 5, 5, 5, 5, 5, 5, 5, 5, 5, 5, 4] 12
             = Some ([5, 5, 5, 5, 5, 5, 5, 5, 5, 5, 5, 4], 5)"
    using calculate_median_12 [of "[5, 5, 5, 5, 5, 5, 5, 5, 5, 5, 5, 4]"]
    by (simp add: s2)
  from a b c show ?thesis by simp
qed

theorem median_of_window_witness:
  "length [30, 0, 12, 45, 7, 0, 60, 3, 18, 22, 9, 41 :: u16] = 12
   \<and> calculate_median [30, 0, 12, 45, 7, 0, 60, 3, 18, 22, 9, 41] 12
       = Some ([30, 0, 12, 45, 7, 0, 60, 3, 18, 22, 9, 41], 15)
   \<and> sort [30, 0, 12, 45, 7, 0, 60, 3, 18, 22, 9, 41 :: u16]
       = [0, 0, 3, 7, 9, 12, 18, 22, 30, 41, 45, 60]"
proof -
  have s: "sort [30, 0, 12, 45, 7, 0, 60, 3, 18, 22, 9, 41 :: u16]
       = [0, 0, 3, 7, 9, 12, 18, 22, 30, 41, 45, 60]"
    by simp
  have l: "length [30, 0, 12, 45, 7, 0, 60, 3, 18, 22, 9, 41 :: u16] = 12" by simp
  from median_of_window [OF l]
  obtain m where m: "calculate_median [30, 0, 12, 45, 7, 0, 60, 3, 18, 22, 9, 41] 12
       = Some ([30, 0, 12, 45, 7, 0, 60, 3, 18, 22, 9, 41], m)"
     "unat m = (unat (sort [30, 0, 12, 45, 7, 0, 60, 3, 18, 22, 9, 41 :: u16] ! 5)
                + unat (sort [30, 0, 12, 45, 7, 0, 60, 3, 18, 22, 9, 41 :: u16] ! 6)) div 2"
    by blast
  from m(2) have "unat m = 15" by (simp add: s)
  moreover have "word_of_nat (unat m) = m" by simp
  ultimately have "m = 15" by (simp only: of_nat_numeral)
  with m(1) s l show ?thesis by simp
qed

subsection \<open>The daily window\<close>

lemma unat_minus_one_u32: "unat (- 1 :: u32) = 4294967295"
  by (simp add: unsigned_minus_1_eq_mask mask_eq_exp_minus_1)

lemma upt_12: "[0..<12] = [0, 1, 2, 3, 4, 5, 6, 7, 8, 9, 10, 11]"
  by (simp add: upt_rec)

text \<open>
  Claim C5 at a failing input. With a ring of fourteen days, one commit of 100 minutes
  made and the daily timeframe selected, the window and the chart should show that
  commit at position 11 only (commit number \<open>1 - 12 + 11 = 0\<close>) and no data
  elsewhere. The unsigned \<open>data_points - 12 + i\<close> wraps for \<open>i < 11\<close>; at \<open>i = 7\<close> it is
  \<open>2^32 - 4\<close>, a multiple of 14, so slot 0 is read a second time and the test for a
  missing slot, whose \<open>day_index < 0\<close> can never hold, lets it pass: position 7 shows the
  100 minutes of a day that does not exist.
\<close>

theorem daily_window_phantom_day:
  "histogram_data 14 \<lparr>second = 0, minute = 30, hour = 12, day = 2\<rparr>
     (fst (activity_logging_face_loop 14 \<lparr>second = 0, minute = 0, hour = 0, day = 2\<rparr>
        EVENT_BACKGROUND_TASK
        ((activity_logging_face_setup 14)\<lparr>active_minutes_today := 100,
            timeframe_mode := ACTIVITY_LOGGING_TIMEFRAME_12D\<rparr>)))
     = [0, 0, 0, 0, 0, 0, 0, 100, 0, 0, 0, 100]
   \<and> draw_histogram 14 \<lparr>second = 0, minute = 30, hour = 12, day = 2\<rparr>
     (fst (activity_logging_face_loop 14 \<lparr>second = 0, minute = 0, hour = 0, day = 2\<rparr>
        EVENT_BACKGROUND_TASK
        ((activity_logging_face_setup 14)\<lparr>active_minutes_today := 100,
            timeframe_mode := ACTIVITY_LOGGING_TIMEFRAME_12D\<rparr>)))
     = [0, 0, 0, 0, 0, 0, 0, 1, 0, 0, 0, 1]"
  by (simp add: loop_background_task background_task_def activity_logging_face_setup_def
      replicate_14 histogram_data_def draw_histogram_def day_index_def day_slot_missing_def
      get_bar_height_def upt_12 unat_minus_one_u32 Let_def)

lemma commit_day_fields:
  "data_points (commit_day N day_total state) = data_points state + 1
   \<and> timeframe_mode (commit_day N day_total state) = timeframe_mode state
   \<and> length (activity_log (commit_day N day_total state)) = length (activity_log state)
   \<and> activity_log (commit_day N day_total state)
       = (activity_log state)[unat (data_points state) mod N := day_total]"
  by (simp add: commit_day_def background_task_def Let_def)

lemma unat_of_nat_u32: "n < 4294967296 \<Longrightarrow> unat (of_nat n :: u32) = n"
  by (simp add: unat_of_nat)

lemma ring_after_commits:
  assumes "0 < N" and "length (activity_log state) = N" and "data_points state = 0"
    and "length totals < 4294967296"
  shows "data_points (commit_all N state totals) = of_nat (length totals)
         \<and> timeframe_mode (commit_all N state totals) = timeframe_mode state
         \<and> length (activity_log (commit_all N state totals)) = N
         \<and> (\<forall>k<length totals. length totals \<le> k + N \<longrightarrow>
               activity_log (commit_all N state totals) ! (k mod N) = totals ! k)"
  using assms(4)
proof (induction totals rule: rev_induct)
  case Nil
  then show ?case using assms(2,3) by (simp add: commit_all_def)
next
  case (snoc t totals)
  let ?D = "length totals"
  let ?s = "commit_all N state totals"
  from snoc.prems have D: "?D < 4294967296" by simp
  from snoc.IH [OF D] have dp: "data_points ?s = of_nat ?D"
    and tf: "timeframe_mode ?s = timeframe_mode state"
    and len: "length (activity_log ?s) = N"
    and ring: "\<And>k. k < ?D \<Longrightarrow> ?D \<le> k + N \<Longrightarrow> activity_log ?s ! (k mod N) = totals ! k"
    by simp_all
  have step: "commit_all N state (totals @ [t]) = commit_day N t ?s"
    by (simp add: commit_all_def)
  have pos: "unat (data_points ?s) mod N = ?D mod N"
    using D by (simp add: dp unat_of_nat_u32)
  have slot: "activity_log (commit_day N t ?s) ! (k mod N) = (totals @ [t]) ! k"
    if k: "k < Suc ?D" and near: "Suc ?D \<le> k + N" for k
  proof (cases "k = ?D")
    case True
    with assms(1) len show ?thesis
      by (simp add: commit_day_fields pos)
  next
    case False
    with k have kD: "k < ?D" by simp
    have "k mod N \<noteq> ?D mod N"
    proof
      assume eq: "k mod N = ?D mod N"
      from kD have "(?D - k) mod N = 0"
        using eq by (metis mod_eq_dvd_iff_nat less_imp_le_nat dvd_imp_mod_0)
      moreover from kD near have "0 < ?D - k" and "?D - k < N" by simp_all
      ultimately show False by simp
    qed
    moreover from near have "?D \<le> k + N" by simp
    ultimately show ?thesis
      using ring [OF kD] kD by (simp add: commit_day_fields pos nth_append)
  qed
  show ?case
    using slot by (simp add: step commit_day_fields dp tf len)
qed

lemma day_index_no_wrap:
  assumes "12 \<le> D" and "D < 4294967296" and "i < 12"
  shows "day_index N (of_nat D) i = int ((D - 12 + i) mod N)"
proof -
  have "(of_nat D - 12 + of_nat i :: u32) = of_nat (D - 12 + i)"
    using assms(1) by simp
  moreover have "D - 12 + i < 4294967296" using assms by simp
  ultimately show ?thesis
    by (simp only: day_index_def unat_of_nat_u32)
qed

lemma day_slot_missing_nat:
  assumes "D < 4294967296" and "m < 4294967296"
  shows "day_slot_missing (of_nat D) (int m) = (D \<le> m)"
proof -
  have "(word_of_int (int m) :: u32) = of_nat m" by simp
  then show ?thesis
    using assms by (simp add: day_slot_missing_def word_le_nat_alt unat_of_nat_u32)
qed

lemma recent_slot_below:
  assumes "12 \<le> D" and "i < 12" and "0 < N"
  shows "(D - 12 + i) mod N < (D :: nat)"
proof (cases "N \<le> D")
  case True
  have "(D - 12 + i) mod N < N" using assms(3) by simp
  with True show ?thesis by simp
next
  case False
  have "(D - 12 + i) mod N \<le> D - 12 + i" by (rule mod_less_eq_dividend)
  moreover have "D - 12 + i < D" using assms(1,2) by linarith
  ultimately show ?thesis by (rule le_less_trans)
qed

text \<open>
  The daily window from the twelfth commit on. Let the ring hold at least twelve
  slots, and let \<open>D\<close> daily totals (\<open>12 \<le> D < 2^32\<close>) be committed, one per day, to a
  fresh state. Then the window of the daily timeframe is the list of the last twelve
  totals, oldest first: position \<open>i\<close> holds the total of commit number \<open>D - 12 + i\<close>.
  The failure of claim C5 is confined to the first eleven commits.
\<close>

theorem daily_window_recent:
  assumes N: "12 \<le> N" and len: "length (activity_log state) = N"
    and fresh: "data_points state = 0"
    and tf: "timeframe_mode state = ACTIVITY_LOGGING_TIMEFRAME_12D"
    and D: "12 \<le> length totals" "length totals < 4294967296"
  shows "histogram_data N now (commit_all N state totals) = drop (length totals - 12) totals"
proof (rule nth_equalityI)
  let ?D = "length totals"
  let ?s = "commit_all N state totals"
  from N have Npos: "0 < N" by simp
  from ring_after_commits [OF Npos len fresh D(2)]
  have dp: "data_points ?s = of_nat ?D"
    and tfs: "timeframe_mode ?s = ACTIVITY_LOGGING_TIMEFRAME_12D"
    and ring: "\<And>k. k < ?D \<Longrightarrow> ?D \<le> k + N \<Longrightarrow> activity_log ?s ! (k mod N) = totals ! k"
    using tf by simp_all
  show "length (histogram_data N now ?s) = length (drop (?D - 12) totals)"
    using D(1) by (simp add: histogram_data_def tfs)
  fix i
  assume "i < length (histogram_data N now ?s)"
  then have i: "i < 12" by (simp add: histogram_data_def tfs)
  let ?k = "?D - 12 + i"
  have k: "?k < ?D" using D(1) i by simp
  have near: "?D \<le> ?k + N" using D(1) N by simp
  have below: "?k mod N < ?D" by (rule recent_slot_below [OF D(1) i Npos])
  then have small: "?k mod N < 4294967296" using D(2) by simp
  have di: "day_index N (data_points ?s) i = int (?k mod N)"
    by (simp only: dp day_index_no_wrap [OF D i])
  have present: "\<not> day_slot_missing (data_points ?s) (int (?k mod N))"
    using day_slot_missing_nat [OF D(2) small] below by (simp add: dp)
  have "histogram_data N now ?s ! i = activity_log ?s ! (?k mod N)"
    using i present by (simp add: histogram_data_def tfs di Let_def)
  also have "\<dots> = totals ! ?k" by (rule ring [OF k near])
  also have "\<dots> = drop (?D - 12) totals ! i" using D(1) i by simp
  finally show "histogram_data N now ?s ! i = drop (?D - 12) totals ! i" .
qed

theorem daily_window_recent_witness:
  "histogram_data 14 \<lparr>second = 0, minute = 30, hour = 12, day = 16\<rparr>
     (commit_all 14
        ((activity_logging_face_setup 14)\<lparr>timeframe_mode := ACTIVITY_LOGGING_TIMEFRAME_12D\<rparr>)
        [10, 20, 30, 40, 50, 60, 70, 80, 90, 100, 110, 120, 130, 140, 150])
     = [40, 50, 60, 70, 80, 90, 100, 110, 120, 130, 140, 150]"
  using daily_window_recent [of 14
      "(activity_logging_face_setup 14)\<lparr>timeframe_mode := ACTIVITY_LOGGING_TIMEFRAME_12D\<rparr>"
      "[10, 20, 30, 40, 50, 60, 70, 80, 90, 100, 110, 120, 130, 140, 150]"
      "\<lparr>second = 0, minute = 30, hour = 12, day = 16\<rparr>"]
  by (simp add: activity_logging_face_setup_def)

end
